theory Spec2Isabelle
  imports Main "HOL-Library.Word"
begin

unbundle bit_operations_syntax

section \<open>JavaScript numbers and their 32-bit operators\<close>

text \<open>
  A JavaScript \<^verbatim>\<open>number\<close> that holds an integer is an \<open>int\<close>; a \<^verbatim>\<open>bigint\<close> is an
  \<open>int\<close> too. The operators \<^verbatim>\<open>&\<close>, \<^verbatim>\<open>|\<close>, \<^verbatim>\<open>^\<close>, \<^verbatim>\<open>~\<close>, \<^verbatim>\<open><<\<close> and \<^verbatim>\<open>>>\<close> on numbers first
  convert each operand to a signed 32-bit integer (ToInt32), take the shift count modulo 32,
  and give a signed 32-bit integer. On bigints the same operators work on unbounded two's
  complement integers, which are the bit operations of \<open>int\<close>. Numbers that are not
  integers (and NaN, the infinities) are outside the model.
\<close>

definition to_int32 :: "int \<Rightarrow> int" where
  "to_int32 x = signed_take_bit 31 x"

definition js_and :: "int \<Rightarrow> int \<Rightarrow> int" where
  "js_and a b = to_int32 a AND to_int32 b"

definition js_or :: "int \<Rightarrow> int \<Rightarrow> int" where
  "js_or a b = to_int32 a OR to_int32 b"

definition js_xor :: "int \<Rightarrow> int \<Rightarrow> int" where
  "js_xor a b = to_int32 a XOR to_int32 b"

definition js_not :: "int \<Rightarrow> int" where
  "js_not a = NOT (to_int32 a)"

definition js_shl :: "int \<Rightarrow> int \<Rightarrow> int" where
  "js_shl a k = to_int32 (push_bit (nat (k mod 32)) (to_int32 a))"

definition js_sar :: "int \<Rightarrow> int \<Rightarrow> int" where
  "js_sar a k = drop_bit (nat (k mod 32)) (to_int32 a)"

section \<open>Thrift type tags (src/types.ts, enum ThriftType)\<close>

text \<open>
  The enum is numeric and a tag read from the wire is any nibble, so a tag is an \<open>int\<close>;
  the enum members are names for their numbers.
\<close>

abbreviation (input) STOP :: int where "STOP \<equiv> 0"
abbreviation (input) TRUE :: int where "TRUE \<equiv> 1"
abbreviation (input) FALSE :: int where "FALSE \<equiv> 2"
abbreviation (input) BYTE :: int where "BYTE \<equiv> 3"
abbreviation (input) INT_16 :: int where "INT_16 \<equiv> 4"
abbreviation (input) INT_32 :: int where "INT_32 \<equiv> 5"
abbreviation (input) INT_64 :: int where "INT_64 \<equiv> 6"
abbreviation (input) DOUBLE :: int where "DOUBLE \<equiv> 7"
abbreviation (input) BINARY :: int where "BINARY \<equiv> 8"
abbreviation (input) LIST :: int where "LIST \<equiv> 9"
abbreviation (input) SET :: int where "SET \<equiv> 10"
abbreviation (input) MAP :: int where "MAP \<equiv> 11"
abbreviation (input) STRUCT :: int where "STRUCT \<equiv> 12"
abbreviation (input) FLOAT :: int where "FLOAT \<equiv> 13"
abbreviation (input) BOOLEAN :: int where "BOOLEAN \<equiv> 161"

definition isThriftBoolean :: "int \<Rightarrow> bool" where
  "isThriftBoolean type =
     (let type = js_and type 15 in type = TRUE \<or> type = FALSE \<or> type = BOOLEAN)"

section \<open>Errors and values\<close>

text \<open>
  Every failure of the codec is a \<^verbatim>\<open>ThriftError\<close> with a message; the first five
  constructors name the five messages' kinds. \<open>RangeError\<close> is what Node's \<^verbatim>\<open>Buffer\<close>
  methods and \<^verbatim>\<open>Array(length)\<close> throw on an offset, value or length out of range.
  \<open>IllTyped\<close> marks a value that has not the TypeScript type its schema gives it: the
  TypeScript types exclude such a call, and what JavaScript does there (coercions,
  TypeErrors) is not followed.
\<close>

datatype error =
    TypeMismatch
  | UnknownType
  | EmptyStructRead
  | InvalidBooleanContext
  | UnsupportedWrite
  | RangeError
  | IllTyped

type_synonym byte = "8 word"

text \<open>
  The values the codec reads and writes. A string is the list of the bytes of its UTF-8
  encoding, one \<open>char\<close> a byte, so \<^verbatim>\<open>Buffer.from(s, 'utf8')\<close> and
  \<^verbatim>\<open>buf.toString('utf8')\<close> only change the type (exact on well-formed UTF-8). A double or
  float is kept as the bytes read. An object is the list of its entries in the order of
  \<^verbatim>\<open>Object.entries\<close>, with distinct keys.
\<close>

datatype jsval =
    VBool bool
  | VNum int
  | VBig int
  | VStr string
  | VBuf "byte list"
  | VDouble "byte list"
  | VArr "jsval list"
  | VObj "(string \<times> jsval) list"

definition utf8_bytes :: "string \<Rightarrow> byte list" where
  "utf8_bytes s = map (\<lambda>c. of_char c) s"

definition utf8_string :: "byte list \<Rightarrow> string" where
  "utf8_string bs = map (\<lambda>b. char_of (unat b)) bs"

section \<open>Schema (src/types.ts, namespace t)\<close>

datatype TBinaryType = STRING | BINARY_KIND

text \<open>
  \<^verbatim>\<open>TMap\<close> takes a key of class \<^verbatim>\<open>TBinary<TStringDef> | TInt16 | TInt32\<close> only.
\<close>

datatype ttype =
    TBinary TBinaryType
  | TInt16
  | TInt32
  | TInt64
  | TBoolean
  | TByte
  | TList ttype
  | TSet ttype
  | TMap ttype ttype
  | TStruct "(string \<times> tfield) list"
and tfield = TField (number: int) (ftype: ttype) (isOptional: bool)

fun thrift_type :: "ttype \<Rightarrow> int" where
  "thrift_type (TBinary k) = BINARY"
| "thrift_type TInt16 = INT_16"
| "thrift_type TInt32 = INT_32"
| "thrift_type TInt64 = INT_64"
| "thrift_type TBoolean = BOOLEAN"
| "thrift_type TByte = BYTE"
| "thrift_type (TList item) = LIST"
| "thrift_type (TSet item) = SET"
| "thrift_type (TMap key val) = MAP"
| "thrift_type (TStruct shape) = STRUCT"

section \<open>Writer (class BufferWriter)\<close>

text \<open>The stack is a list with its top at the head.\<close>

record BufferWriter =
  w_buffer :: "byte list"
  w_cursor :: int
  w_prev_field_id :: int
  w_stack :: "int list"

definition new_BufferWriter :: BufferWriter where
  "new_BufferWriter = \<lparr>w_buffer = [], w_cursor = 0, w_prev_field_id = 0, w_stack = []\<rparr>"

definition w_push_stack :: "BufferWriter \<Rightarrow> BufferWriter" where
  "w_push_stack w = w\<lparr>w_stack := w_prev_field_id w # w_stack w, w_prev_field_id := 0\<rparr>"

definition w_pop_stack :: "BufferWriter \<Rightarrow> BufferWriter" where
  "w_pop_stack w =
     (case w_stack w of
        [] \<Rightarrow> w
      | saved # rest \<Rightarrow> w\<lparr>w_prev_field_id := saved, w_stack := rest\<rparr>)"

definition writeBuffer :: "byte list \<Rightarrow> BufferWriter \<Rightarrow> BufferWriter" where
  "writeBuffer buf w =
     w\<lparr>w_buffer := w_buffer w @ buf, w_cursor := w_cursor w + int (length buf)\<rparr>"

text \<open>\<^verbatim>\<open>buf.writeUInt8(byte, 0)\<close> throws unless \<open>0 \<le> byte \<le> 255\<close>.\<close>

definition write_byte :: "int \<Rightarrow> BufferWriter \<Rightarrow> error + BufferWriter" where
  "write_byte byte w =
     (if 0 \<le> byte \<and> byte \<le> 255 then Inr (writeBuffer [word_of_int byte] w)
      else Inl RangeError)"

definition bigintToZigZag :: "int \<Rightarrow> int" where
  "bigintToZigZag n = push_bit 1 n XOR drop_bit 63 n"

definition toZigZag :: "int \<Rightarrow> int \<Rightarrow> int" where
  "toZigZag n bits = js_xor (js_shl n 1) (js_sar n (bits - 1))"

text \<open>
  \<^verbatim>\<open>_write_varint\<close>. \<^verbatim>\<open>~0x7f\<close> is \<open>- 128\<close>; the byte written in the last branch is
  \<^verbatim>\<open>(num & 0xff) | 0x80\<close>; \<^verbatim>\<open>num >> 7\<close> keeps the sign.
\<close>

function write_varint :: "int \<Rightarrow> BufferWriter \<Rightarrow> error + BufferWriter" where
  "write_varint num w =
     (let byte = js_and num (js_not 127) in
      if byte = 0 then write_byte num w
      else if byte = - 128 then write_byte 0 w
      else (case write_byte (js_or (js_and num 255) 128) w of
              Inl e \<Rightarrow> Inl e
            | Inr w' \<Rightarrow> write_varint (js_sar num 7) w'))"
  by pat_completeness auto

lemma and_minus_128: "(x::int) AND - 128 = 128 * (x div 128)"
proof -
  have "x AND NOT (mask 7) = push_bit 7 (drop_bit 7 x)"
    by (rule bit_eqI) (auto simp: bit_simps)
  then show ?thesis
    by (simp add: mask_eq_exp_minus_1 not_int_def push_bit_eq_mult drop_bit_eq_div)
qed

lemma to_int32_range: "- 2147483648 \<le> to_int32 x" "to_int32 x < 2147483648"
  using signed_take_bit_int_greater_eq_minus_exp [of 31 x]
    signed_take_bit_int_less_exp [of 31 x]
  by (simp_all add: to_int32_def)

lemma to_int32_id: "- 2147483648 \<le> x \<Longrightarrow> x < 2147483648 \<Longrightarrow> to_int32 x = x"
  by (simp add: to_int32_def signed_take_bit_int_eq_self)

lemma js_and_not_127: "js_and num (js_not 127) = 128 * (to_int32 num div 128)"
  by (simp add: js_and_def js_not_def to_int32_id and_minus_128)

lemma js_sar_7: "js_sar num 7 = to_int32 num div 128"
  by (simp add: js_sar_def drop_bit_eq_div)

definition varint_measure :: "int \<Rightarrow> nat" where
  "varint_measure num =
     (if - 2147483648 \<le> num \<and> num < 2147483648 then nat \<bar>num\<bar> else 2147483649)"

lemma varint_measure_decreases:
  assumes "js_and num (js_not 127) \<noteq> 0" and "js_and num (js_not 127) \<noteq> - 128"
  shows "varint_measure (js_sar num 7) < varint_measure num"
proof -
  define x where "x = to_int32 num"
  define y where "y = x div 128"
  have range: "- 2147483648 \<le> x" "x < 2147483648"
    unfolding x_def by (rule to_int32_range)+
  from assms have y: "y \<noteq> 0" "y \<noteq> - 1"
    by (simp_all add: js_and_not_127 x_def y_def)
  have yx: "\<bar>y\<bar> < \<bar>x\<bar>" and yr: "- 2147483648 \<le> y" "y < 2147483648"
    using y range unfolding y_def by linarith+
  have "varint_measure y = nat \<bar>y\<bar>"
    using yr by (simp add: varint_measure_def)
  moreover have "nat \<bar>y\<bar> < varint_measure num"
  proof (cases "- 2147483648 \<le> num \<and> num < 2147483648")
    case True
    then have "x = num" by (simp add: x_def to_int32_id)
    with yx True show ?thesis by (simp add: varint_measure_def)
  next
    case False
    with yr show ?thesis by (simp add: varint_measure_def) linarith
  qed
  ultimately show ?thesis by (simp add: js_sar_7 x_def y_def)
qed

termination write_varint
  by (relation "measure (\<lambda>(num, w). varint_measure num)")
    (simp_all add: varint_measure_decreases)

text \<open>
  \<^verbatim>\<open>_write_bigint_varint\<close>: the loop on an unbounded bigint. It has no branch for a
  negative \<open>n\<close>, whose shifts never reach 0: not returning is the value \<open>None\<close>.
\<close>

partial_function (option) write_bigint_varint ::
  "int \<Rightarrow> BufferWriter \<Rightarrow> (error + BufferWriter) option" where
  "write_bigint_varint n w =
     (if n AND NOT 127 = 0 then Some (write_byte n w)
      else (case write_byte ((n AND 127) OR 128) w of
              Inl e \<Rightarrow> Some (Inl e)
            | Inr w' \<Rightarrow> write_bigint_varint (drop_bit 7 n) w'))"

definition write_word :: "int \<Rightarrow> BufferWriter \<Rightarrow> error + BufferWriter" where
  "write_word val w = write_varint (toZigZag val 16) w"

definition write_int :: "int \<Rightarrow> BufferWriter \<Rightarrow> error + BufferWriter" where
  "write_int val w = write_varint (toZigZag val 32) w"

definition write_long :: "int \<Rightarrow> BufferWriter \<Rightarrow> (error + BufferWriter) option" where
  "write_long val w = write_bigint_varint (bigintToZigZag val) w"

definition write_field_begin :: "int \<Rightarrow> int \<Rightarrow> BufferWriter \<Rightarrow> error + BufferWriter" where
  "write_field_begin field_id type w =
     (let delta = field_id - w_prev_field_id w in
      case (if 0 < delta \<and> delta < 16 then write_byte (js_or (js_shl delta 4) type) w
            else (case write_byte type w of
                    Inl e \<Rightarrow> Inl e
                  | Inr w' \<Rightarrow> write_word field_id w')) of
        Inl e \<Rightarrow> Inl e
      | Inr w' \<Rightarrow> Inr (w'\<lparr>w_prev_field_id := field_id\<rparr>))"

declare write_varint.simps [simp del]

text \<open>
  Number to string and back, for the keys of a map with integer keys: an object's keys are
  strings, \<^verbatim>\<open>Object.fromEntries\<close> turns a number key into its decimal string, and the
  writer's shifts turn the string back into a number. Only decimal integer strings are
  followed.
\<close>

fun digits_of :: "nat \<Rightarrow> string" where
  "digits_of n =
     (if n < 10 then [char_of (48 + n)]
      else digits_of (n div 10) @ [char_of (48 + n mod 10)])"

declare digits_of.simps [simp del]

definition js_number_to_string :: "int \<Rightarrow> string" where
  "js_number_to_string n =
     (if n < 0 then CHR ''-'' # digits_of (nat (- n)) else digits_of (nat n))"

definition digit_val :: "char \<Rightarrow> nat option" where
  "digit_val c =
     (if 48 \<le> (of_char c :: nat) \<and> (of_char c :: nat) \<le> 57 then Some (of_char c - 48)
      else None)"

fun parse_digits :: "string \<Rightarrow> nat \<Rightarrow> nat option" where
  "parse_digits [] acc = Some acc"
| "parse_digits (c # cs) acc =
     (case digit_val c of
        None \<Rightarrow> None
      | Some d \<Rightarrow> parse_digits cs (10 * acc + d))"

definition js_string_to_number :: "string \<Rightarrow> int option" where
  "js_string_to_number s =
     (case s of
        [] \<Rightarrow> None
      | c # cs \<Rightarrow>
          if c = CHR ''-'' then
            (if cs = [] then None else map_option (\<lambda>n. - int n) (parse_digits cs 0))
          else map_option int (parse_digits s 0))"

text \<open>
  Truthiness (\<^verbatim>\<open>val ? a : b\<close>). A double is falsy when it is a zero or a NaN, read off
  the little-endian IEEE-754 bytes with the sign bit cleared.
\<close>

definition le_uint :: "byte list \<Rightarrow> int" where
  "le_uint bs = foldr (\<lambda>b acc. uint b + 256 * acc) bs 0"

fun truthy :: "jsval \<Rightarrow> bool" where
  "truthy (VBool b) = b"
| "truthy (VNum n) = (n \<noteq> 0)"
| "truthy (VBig n) = (n \<noteq> 0)"
| "truthy (VStr s) = (s \<noteq> [])"
| "truthy (VBuf bs) = True"
| "truthy (VDouble bs) =
     (let m = le_uint bs mod 2 ^ (8 * length bs - 1) in
      m \<noteq> 0 \<and> m \<le> (if length bs = 8 then 9218868437227405312 else 2139095040))"
| "truthy (VArr xs) = True"
| "truthy (VObj kvs) = True"

definition write_string :: "jsval \<Rightarrow> BufferWriter \<Rightarrow> error + BufferWriter" where
  "write_string val w =
     (case val of
        VStr s \<Rightarrow>
          (let buf = utf8_bytes s in
           case write_varint (int (length buf)) w of
             Inl e \<Rightarrow> Inl e
           | Inr w' \<Rightarrow> Inr (writeBuffer buf w'))
      | VBuf buf \<Rightarrow>
          (case write_varint (int (length buf)) w of
             Inl e \<Rightarrow> Inl e
           | Inr w' \<Rightarrow> Inr (writeBuffer buf w'))
      | _ \<Rightarrow> Inl IllTyped)"

text \<open>
  \<^verbatim>\<open>write_val\<close>. The number given to \<^verbatim>\<open>_write_word\<close> and \<^verbatim>\<open>_write_int\<close> is a number, or
  the decimal string of one when it is the key of an object.
\<close>

definition to_number :: "jsval \<Rightarrow> int option" where
  "to_number val =
     (case val of VNum n \<Rightarrow> Some n | VStr s \<Rightarrow> js_string_to_number s | _ \<Rightarrow> None)"

definition write_val ::
  "int option \<Rightarrow> int \<Rightarrow> jsval \<Rightarrow> BufferWriter \<Rightarrow> (error + BufferWriter) option" where
  "write_val field_id type val w =
     (if type = BOOLEAN then
        (case field_id of
           None \<Rightarrow> Some (Inl InvalidBooleanContext)
         | Some fid \<Rightarrow> Some (write_field_begin fid (if truthy val then TRUE else FALSE) w))
      else
        (case (case field_id of
                 Some fid \<Rightarrow> write_field_begin fid type w
               | None \<Rightarrow> Inr w) of
           Inl e \<Rightarrow> Some (Inl e)
         | Inr w' \<Rightarrow>
             if type = BYTE then
               (case val of VNum n \<Rightarrow> Some (write_byte n w') | _ \<Rightarrow> Some (Inl IllTyped))
             else if type = INT_16 then
               (case to_number val of
                  Some n \<Rightarrow> Some (write_word n w')
                | None \<Rightarrow> Some (Inl IllTyped))
             else if type = INT_32 then
               (case to_number val of
                  Some n \<Rightarrow> Some (write_int n w')
                | None \<Rightarrow> Some (Inl IllTyped))
             else if type = INT_64 then
               (case val of
                  VBig n \<Rightarrow> write_long n w'
                | VNum n \<Rightarrow> write_long n w'
                | _ \<Rightarrow> Some (Inl IllTyped))
             else if type = BINARY then Some (write_string val w')
             else Some (Inl UnsupportedWrite)))"

text \<open>\<^verbatim>\<open>xs.forEach(f)\<close> on the writer: stops at the first throw.\<close>

fun forEach ::
  "('a \<Rightarrow> 's \<Rightarrow> (error + 's) option) \<Rightarrow> 'a list \<Rightarrow> 's \<Rightarrow> (error + 's) option" where
  "forEach f [] w = Some (Inr w)"
| "forEach f (x # xs) w =
     (case f x w of
        None \<Rightarrow> None
      | Some (Inl e) \<Rightarrow> Some (Inl e)
      | Some (Inr w') \<Rightarrow> forEach f xs w')"

lemma forEach_cong [fundef_cong]:
  "xs = ys \<Longrightarrow> w = w' \<Longrightarrow> (\<And>x s. x \<in> set ys \<Longrightarrow> f x s = g x s)
    \<Longrightarrow> forEach f xs w = forEach g ys w'"
proof (induction ys arbitrary: xs w w')
  case Nil
  then show ?case by simp
next
  case (Cons y ys)
  then show ?case by (auto split: option.splits sum.splits)
qed

definition write_list ::
  "int \<Rightarrow> int \<Rightarrow> jsval \<Rightarrow> BufferWriter \<Rightarrow> (error + BufferWriter) option" where
  "write_list field_id item_type val w =
     (case write_field_begin field_id LIST w of
        Inl e \<Rightarrow> Some (Inl e)
      | Inr w1 \<Rightarrow>
          (case val of
             VArr xs \<Rightarrow>
               (case (if int (length xs) < 15
                      then write_byte (js_or (js_shl (int (length xs)) 4) item_type) w1
                      else (case write_byte (js_or 240 item_type) w1 of
                              Inl e \<Rightarrow> Inl e
                            | Inr w2 \<Rightarrow> write_varint (int (length xs)) w2)) of
                  Inl e \<Rightarrow> Some (Inl e)
                | Inr w3 \<Rightarrow> forEach (\<lambda>v. write_val None item_type v) xs w3)
           | _ \<Rightarrow> Some (Inl IllTyped)))"

definition write_map ::
  "int \<Rightarrow> int \<Rightarrow> int \<Rightarrow> jsval \<Rightarrow> BufferWriter \<Rightarrow> (error + BufferWriter) option" where
  "write_map field_id key_type value_type val w =
     (case write_field_begin field_id MAP w of
        Inl e \<Rightarrow> Some (Inl e)
      | Inr w1 \<Rightarrow>
          (case val of
             VObj kvs \<Rightarrow>
               (let len = int (length kvs) in
                if len = 0 then Some (write_byte 0 w1)
                else
                  (case write_varint len w1 of
                     Inl e \<Rightarrow> Some (Inl e)
                   | Inr w2 \<Rightarrow>
                       (case write_byte
                               (js_or (js_shl (js_and key_type 15) 4) (js_and value_type 15))
                               w2 of
                          Inl e \<Rightarrow> Some (Inl e)
                        | Inr w3 \<Rightarrow>
                            forEach
                              (\<lambda>(k, v) w4.
                                 case write_val None key_type (VStr k) w4 of
                                   None \<Rightarrow> None
                                 | Some (Inl e) \<Rightarrow> Some (Inl e)
                                 | Some (Inr w5) \<Rightarrow> write_val None value_type v w5)
                              kvs w3)))
           | _ \<Rightarrow> Some (Inl IllTyped)))"

definition write_stop :: "BufferWriter \<Rightarrow> error + BufferWriter" where
  "write_stop w =
     (case write_byte STOP w of
        Inl e \<Rightarrow> Inl e
      | Inr w' \<Rightarrow> Inr (w_pop_stack w'))"

definition write_struct_begin :: "int \<Rightarrow> BufferWriter \<Rightarrow> error + BufferWriter" where
  "write_struct_begin field_id w =
     (case write_field_begin field_id STRUCT w of
        Inl e \<Rightarrow> Inl e
      | Inr w' \<Rightarrow> Inr (w_push_stack w'))"

lemma size_field_in_shape:
  "(k, f) \<in> set shape \<Longrightarrow> size (ftype f) < Suc (size_list (size_prod (\<lambda>x. 0) size) shape)"
proof (induction shape)
  case Nil
  then show ?case by simp
next
  case (Cons a shape)
  then show ?case by (cases f) auto
qed

text \<open>
  \<^verbatim>\<open>write_struct\<close>. The branch on \<^verbatim>\<open>field.meta.type.thrift_type\<close> is the case on the
  class of the field's type, which fixes its \<^verbatim>\<open>thrift_type\<close>.
\<close>

function write_struct ::
  "jsval \<Rightarrow> ttype \<Rightarrow> BufferWriter \<Rightarrow> (error + BufferWriter) option" where
  "write_struct obj struct w =
     (case struct of
        TStruct shape \<Rightarrow>
          (case obj of
             VObj entries \<Rightarrow>
               (case (if length entries \<noteq> 0 then
                        forEach
                          (\<lambda>(keyName, field) w1.
                             case find (\<lambda>(k, v). keyName = k) entries of
                               None \<Rightarrow> Some (Inr w1)
                             | Some entry \<Rightarrow>
                                 (case ftype field of
                                    TList item \<Rightarrow>
                                      write_list (number field) (thrift_type item) (snd entry) w1
                                  | TSet item \<Rightarrow>
                                      write_list (number field) (thrift_type item) (snd entry) w1
                                  | TMap key val \<Rightarrow>
                                      write_map (number field) (thrift_type key)
                                        (thrift_type val) (snd entry) w1
                                  | TStruct sub \<Rightarrow>
                                      (case write_struct_begin (number field) w1 of
                                         Inl e \<Rightarrow> Some (Inl e)
                                       | Inr w2 \<Rightarrow> write_struct (snd entry) (ftype field) w2)
                                  | _ \<Rightarrow>
                                      write_val (Some (number field))
                                        (thrift_type (ftype field)) (snd entry) w1))
                          shape w
                      else Some (Inr w)) of
                  None \<Rightarrow> None
                | Some (Inl e) \<Rightarrow> Some (Inl e)
                | Some (Inr w') \<Rightarrow> Some (write_stop w'))
           | _ \<Rightarrow> Some (Inl IllTyped))
      | _ \<Rightarrow> Some (Inl IllTyped))"
  by pat_completeness auto

termination write_struct
  by (relation "measure (\<lambda>(obj, struct, w). size struct)")
    (auto dest: size_field_in_shape)

declare write_struct.simps [simp del]

definition thriftWriteFromObject :: "jsval \<Rightarrow> ttype \<Rightarrow> (error + byte list) option" where
  "thriftWriteFromObject obj struct =
     (case write_struct obj struct new_BufferWriter of
        None \<Rightarrow> None
      | Some (Inl e) \<Rightarrow> Some (Inl e)
      | Some (Inr writer) \<Rightarrow> Some (Inr (w_buffer writer)))"

section \<open>Reader (class BufferReader)\<close>

text \<open>
  The reader's state. \<^verbatim>\<open>_prev_struct_id\<close> only numbers the structs that
  \<^verbatim>\<open>pretty_print\<close> shows and is left out, with \<^verbatim>\<open>pretty_print\<close> and the path strings
  of the messages.
\<close>

record BufferReader =
  r_buffer :: "byte list"
  r_cursor :: int
  r_prev_field_id :: int
  r_stack :: "int list"

definition new_BufferReader :: "byte list \<Rightarrow> BufferReader" where
  "new_BufferReader buffer =
     \<lparr>r_buffer = buffer, r_cursor = 0, r_prev_field_id = 0, r_stack = []\<rparr>"

definition r_push_stack :: "BufferReader \<Rightarrow> BufferReader" where
  "r_push_stack r = r\<lparr>r_stack := r_prev_field_id r # r_stack r, r_prev_field_id := 0\<rparr>"

definition r_pop_stack :: "BufferReader \<Rightarrow> BufferReader" where
  "r_pop_stack r =
     (case r_stack r of
        [] \<Rightarrow> r
      | saved # rest \<Rightarrow> r\<lparr>r_prev_field_id := saved, r_stack := rest\<rparr>)"

text \<open>
  \<^verbatim>\<open>move\<close> clamps the new cursor into the buffer and returns it less \<open>bytes\<close>: at the
  end of the buffer that is not the old cursor.
\<close>

definition move :: "int \<Rightarrow> BufferReader \<Rightarrow> int \<times> BufferReader" where
  "move bytes r =
     (let c = min (max (r_cursor r + bytes) 0) (int (length (r_buffer r)))
      in (c - bytes, r\<lparr>r_cursor := c\<rparr>))"

text \<open>
  Node's \<^verbatim>\<open>readUInt8\<close>, \<^verbatim>\<open>readInt8\<close>, \<^verbatim>\<open>readDoubleLE\<close> and \<^verbatim>\<open>readFloatLE\<close> throw a
  RangeError unless the bytes read lie in the buffer.
\<close>

definition readUInt8 :: "byte list \<Rightarrow> int \<Rightarrow> error + int" where
  "readUInt8 buf offset =
     (if 0 \<le> offset \<and> offset < int (length buf) then Inr (uint (buf ! nat offset))
      else Inl RangeError)"

definition readInt8 :: "byte list \<Rightarrow> int \<Rightarrow> error + int" where
  "readInt8 buf offset =
     (if 0 \<le> offset \<and> offset < int (length buf) then Inr (sint (buf ! nat offset))
      else Inl RangeError)"

definition readBytesLE :: "nat \<Rightarrow> byte list \<Rightarrow> int \<Rightarrow> error + byte list" where
  "readBytesLE n buf offset =
     (if 0 \<le> offset \<and> offset + int n \<le> int (length buf)
      then Inr (take n (drop (nat offset) buf))
      else Inl RangeError)"

definition readByte :: "BufferReader \<Rightarrow> error + (int \<times> BufferReader)" where
  "readByte r =
     (let (offset, r') = move 1 r in
      case readUInt8 (r_buffer r') offset of
        Inl e \<Rightarrow> Inl e
      | Inr b \<Rightarrow> Inr (b, r'))"

definition readSByte :: "BufferReader \<Rightarrow> error + (int \<times> BufferReader)" where
  "readSByte r =
     (let (offset, r') = move 1 r in
      case readInt8 (r_buffer r') offset of
        Inl e \<Rightarrow> Inl e
      | Inr b \<Rightarrow> Inr (b, r'))"

definition fromZigZag :: "int \<Rightarrow> int" where
  "fromZigZag n = js_xor (js_sar n 1) (- js_and n 1)"

definition fromZigZagToBigInt :: "int \<Rightarrow> int" where
  "fromZigZagToBigInt n = drop_bit 1 n XOR - (n AND 1)"

lemma readByte_cursor:
  "readByte r = Inr (b, r') \<Longrightarrow> r_cursor r < int (length (r_buffer r))
    \<Longrightarrow> r_buffer r' = r_buffer r \<and> r_cursor r < r_cursor r'"
  by (auto simp: readByte_def move_def Let_def split: sum.splits)

function readVarInt_loop ::
  "int \<Rightarrow> int \<Rightarrow> BufferReader \<Rightarrow> error + (int \<times> BufferReader)" where
  "readVarInt_loop shift result r =
     (if r_cursor r < int (length (r_buffer r)) then
        (case readByte r of
           Inl e \<Rightarrow> Inl e
         | Inr (byte, r') \<Rightarrow>
             (let result' = js_or result (js_shl (js_and byte 127) shift) in
              if js_and byte 128 = 0 then Inr (result', r')
              else readVarInt_loop (shift + 7) result' r'))
      else Inr (result, r))"
  by pat_completeness auto

termination readVarInt_loop
  by (relation "measure (\<lambda>(shift, result, r). nat (int (length (r_buffer r)) - r_cursor r))")
    (auto dest!: readByte_cursor)

declare readVarInt_loop.simps [simp del]

definition readVarInt :: "BufferReader \<Rightarrow> error + (int \<times> BufferReader)" where
  "readVarInt r = readVarInt_loop 0 0 r"

function readVarBigint_loop ::
  "int \<Rightarrow> int \<Rightarrow> BufferReader \<Rightarrow> error + (int \<times> BufferReader)" where
  "readVarBigint_loop shift result r =
     (if r_cursor r < int (length (r_buffer r)) then
        (case readByte r of
           Inl e \<Rightarrow> Inl e
         | Inr (byte, r') \<Rightarrow>
             (let result' = result OR push_bit (nat shift) (byte AND 127) in
              if js_and byte 128 \<noteq> 128 then Inr (result', r')
              else readVarBigint_loop (shift + 7) result' r'))
      else Inr (result, r))"
  by pat_completeness auto

termination readVarBigint_loop
  by (relation "measure (\<lambda>(shift, result, r). nat (int (length (r_buffer r)) - r_cursor r))")
    (auto dest!: readByte_cursor)

declare readVarBigint_loop.simps [simp del]

definition readVarBigint :: "BufferReader \<Rightarrow> error + (int \<times> BufferReader)" where
  "readVarBigint r = readVarBigint_loop 0 0 r"

text \<open>
  \<^verbatim>\<open>buf.slice(start, end)\<close>: a negative index counts from the end, both are clamped into
  the buffer, and the slice is empty when \<open>end \<le> start\<close>.
\<close>

definition slice_index :: "byte list \<Rightarrow> int \<Rightarrow> nat" where
  "slice_index buf i =
     (if i < 0 then nat (max (int (length buf) + i) 0) else nat (min i (int (length buf))))"

definition js_slice :: "byte list \<Rightarrow> int \<Rightarrow> int \<Rightarrow> byte list" where
  "js_slice buf start end =
     (let s = slice_index buf start; e = slice_index buf end in take (e - s) (drop s buf))"

text \<open>In \<^verbatim>\<open>slice(this.move(len), this._cursor)\<close> the cursor is read after the move.\<close>

definition readBinary :: "int \<Rightarrow> BufferReader \<Rightarrow> byte list \<times> BufferReader" where
  "readBinary len r =
     (let (start, r') = move len r in (js_slice (r_buffer r') start (r_cursor r'), r'))"

definition read_field :: "BufferReader \<Rightarrow> error + ((int \<times> int) \<times> BufferReader)" where
  "read_field r =
     (case readByte r of
        Inl e \<Rightarrow> Inl e
      | Inr (byte, r1) \<Rightarrow>
          if byte = 0 then Inr ((STOP, - 1), r1)
          else
            (let delta = js_sar (js_and byte 240) 4 in
             case (if delta = 0 then
                     (case readVarInt r1 of
                        Inl e \<Rightarrow> Inl e
                      | Inr (n, r2) \<Rightarrow> Inr (r2\<lparr>r_prev_field_id := fromZigZag n\<rparr>))
                   else Inr (r1\<lparr>r_prev_field_id := r_prev_field_id r1 + delta\<rparr>)) of
               Inl e \<Rightarrow> Inl e
             | Inr r3 \<Rightarrow> Inr ((js_and byte 15, r_prev_field_id r3), r3)))"

definition read_val :: "int \<Rightarrow> BufferReader \<Rightarrow> error + (jsval \<times> BufferReader)" where
  "read_val type r =
     (if type = TRUE then Inr (VBool True, r)
      else if type = FALSE then Inr (VBool False, r)
      else if type = BYTE then
        (case readSByte r of
           Inl e \<Rightarrow> Inl e
         | Inr (b, r') \<Rightarrow> Inr (VNum b, r'))
      else if type = BINARY then
        (case readVarInt r of
           Inl e \<Rightarrow> Inl e
         | Inr (len, r1) \<Rightarrow> (let (buf, r2) = readBinary len r1 in Inr (VBuf buf, r2)))
      else if type = INT_16 \<or> type = INT_32 then
        (case readVarInt r of
           Inl e \<Rightarrow> Inl e
         | Inr (n, r') \<Rightarrow> Inr (VNum (fromZigZag n), r'))
      else if type = INT_64 then
        (case readVarBigint r of
           Inl e \<Rightarrow> Inl e
         | Inr (n, r') \<Rightarrow> Inr (VBig (fromZigZagToBigInt n), r'))
      else if type = DOUBLE then
        (let (offset, r') = move 8 r in
         case readBytesLE 8 (r_buffer r') offset of
           Inl e \<Rightarrow> Inl e
         | Inr bs \<Rightarrow> Inr (VDouble bs, r'))
      else if type = FLOAT then
        (let (offset, r') = move 4 r in
         case readBytesLE 4 (r_buffer r') offset of
           Inl e \<Rightarrow> Inl e
         | Inr bs \<Rightarrow> Inr (VDouble bs, r'))
      else Inl UnknownType)"

definition read_list_header :: "BufferReader \<Rightarrow> error + ((int \<times> int) \<times> BufferReader)" where
  "read_list_header r =
     (case readByte r of
        Inl e \<Rightarrow> Inl e
      | Inr (header_byte, r1) \<Rightarrow>
          (let type = js_and header_byte 15; len = js_sar header_byte 4 in
           if len = 15 then
             (case readVarInt r1 of
                Inl e \<Rightarrow> Inl e
              | Inr (len, r2) \<Rightarrow> Inr ((type, len), r2))
           else Inr ((type, len), r1)))"

definition read_map_header ::
  "BufferReader \<Rightarrow> error + ((int \<times> int \<times> int) \<times> BufferReader)" where
  "read_map_header r =
     (let current_cursor = r_cursor r in
      case readByte r of
        Inl e \<Rightarrow> Inl e
      | Inr (b, r1) \<Rightarrow>
          if b = 0 then Inr ((STOP, STOP, 0), r1)
          else
            (case readVarInt (r1\<lparr>r_cursor := current_cursor\<rparr>) of
               Inl e \<Rightarrow> Inl e
             | Inr (len, r2) \<Rightarrow>
                 (case readByte r2 of
                    Inl e \<Rightarrow> Inl e
                  | Inr (types, r3) \<Rightarrow>
                      Inr ((js_sar types 4, js_and types 15, len), r3))))"

text \<open>
  \<^verbatim>\<open>Object.assign(response, {[keyName]: v})\<close> and \<^verbatim>\<open>Object.fromEntries\<close>: a key that is
  there keeps its place and takes the new value, a new key goes to the end. A number key
  becomes its decimal string; keys of other classes than \<^verbatim>\<open>TMap\<close> accepts are not followed.
\<close>

fun obj_assign :: "(string \<times> jsval) list \<Rightarrow> string \<Rightarrow> jsval \<Rightarrow> (string \<times> jsval) list" where
  "obj_assign [] k v = [(k, v)]"
| "obj_assign (p # ps) k v = (if fst p = k then (k, v) # ps else p # obj_assign ps k v)"

definition property_key :: "jsval \<Rightarrow> string option" where
  "property_key key =
     (case key of VStr s \<Rightarrow> Some s | VNum n \<Rightarrow> Some (js_number_to_string n) | _ \<Rightarrow> None)"

fun fromEntries :: "(string \<times> jsval) list \<Rightarrow> (jsval \<times> jsval) list \<Rightarrow> error + jsval" where
  "fromEntries acc [] = Inr (VObj acc)"
| "fromEntries acc ((key, v) # kvs) =
     (case property_key key of
        None \<Rightarrow> Inl IllTyped
      | Some k \<Rightarrow> fromEntries (obj_assign acc k v) kvs)"

text \<open>
  The recursive part of the reader. A length read from the wire can send the cursor
  backwards (\<^verbatim>\<open>readBinary\<close> with a negative length), so the loops need not end: every
  call takes fuel, and \<open>None\<close> is its running out. \<^verbatim>\<open>Array(length)\<close> throws a RangeError
  on a negative length; the \<^verbatim>\<open>for\<close> loops of \<^verbatim>\<open>skip\<close> run no round then.
\<close>

function skip :: "nat \<Rightarrow> int \<Rightarrow> BufferReader \<Rightarrow> (error + BufferReader) option"
  and skip_struct :: "nat \<Rightarrow> BufferReader \<Rightarrow> (error + BufferReader) option"
  and skip_items :: "nat \<Rightarrow> int \<Rightarrow> int \<Rightarrow> int \<Rightarrow> BufferReader \<Rightarrow> (error + BufferReader) option"
  and skip_pairs ::
    "nat \<Rightarrow> int \<Rightarrow> int \<Rightarrow> int \<Rightarrow> int \<Rightarrow> BufferReader \<Rightarrow> (error + BufferReader) option"
where
  "skip 0 type r = None"
| "skip (Suc fuel) type r =
     (if type = STRUCT then
        (case skip_struct fuel (r_push_stack r) of
           None \<Rightarrow> None
         | Some (Inl e) \<Rightarrow> Some (Inl e)
         | Some (Inr r') \<Rightarrow> Some (Inr (r_pop_stack r')))
      else if type = LIST \<or> type = SET then
        (case read_list_header r of
           Inl e \<Rightarrow> Some (Inl e)
         | Inr ((item_type, len), r1) \<Rightarrow> skip_items fuel item_type 0 len r1)
      else if type = MAP then
        (case read_map_header r of
           Inl e \<Rightarrow> Some (Inl e)
         | Inr ((key_type, value_type, len), r1) \<Rightarrow>
             skip_pairs fuel key_type value_type 0 len r1)
      else
        (case read_val type r of
           Inl e \<Rightarrow> Some (Inl e)
         | Inr (v, r') \<Rightarrow> Some (Inr r')))"
| "skip_struct 0 r = None"
| "skip_struct (Suc fuel) r =
     (if r_cursor r < int (length (r_buffer r)) then
        (case read_field r of
           Inl e \<Rightarrow> Some (Inl e)
         | Inr ((field_type, field_index), r1) \<Rightarrow>
             if field_type = STOP then Some (Inr r1)
             else
               (case skip fuel field_type r1 of
                  None \<Rightarrow> None
                | Some (Inl e) \<Rightarrow> Some (Inl e)
                | Some (Inr r2) \<Rightarrow> skip_struct fuel r2))
      else Some (Inr r))"
| "skip_items 0 item_type i len r = None"
| "skip_items (Suc fuel) item_type i len r =
     (if i < len then
        (case skip fuel item_type r of
           None \<Rightarrow> None
         | Some (Inl e) \<Rightarrow> Some (Inl e)
         | Some (Inr r') \<Rightarrow> skip_items fuel item_type (i + 1) len r')
      else Some (Inr r))"
| "skip_pairs 0 key_type value_type i len r = None"
| "skip_pairs (Suc fuel) key_type value_type i len r =
     (if i < len then
        (case skip fuel key_type r of
           None \<Rightarrow> None
         | Some (Inl e) \<Rightarrow> Some (Inl e)
         | Some (Inr r1) \<Rightarrow>
             (case skip fuel value_type r1 of
                None \<Rightarrow> None
              | Some (Inl e) \<Rightarrow> Some (Inl e)
              | Some (Inr r2) \<Rightarrow> skip_pairs fuel key_type value_type (i + 1) len r2))
      else Some (Inr r))"
  by pat_completeness auto

termination skip
  by (relation
      "measure (case_sum
         (case_sum (\<lambda>(fuel, type, r). fuel) (\<lambda>(fuel, r). fuel))
         (case_sum (\<lambda>(fuel, item_type, i, len, r). fuel)
            (\<lambda>(fuel, key_type, value_type, i, len, r). fuel)))")
    auto

text \<open>
  \<^verbatim>\<open>read_val_recursive\<close>, \<^verbatim>\<open>_read_kv\<close> and the loop of \<^verbatim>\<open>read_struct\<close>, whose
  \<open>response\<close> is the object built so far. \<^verbatim>\<open>Array(length).fill(null).map(f)\<close> is
  \<open>read_items\<close> and \<open>read_kvs\<close>, counting the elements still to read.
\<close>

function read_val_recursive ::
    "nat \<Rightarrow> ttype \<Rightarrow> BufferReader \<Rightarrow> (error + (jsval \<times> BufferReader)) option"
  and read_items ::
    "nat \<Rightarrow> ttype \<Rightarrow> nat \<Rightarrow> BufferReader \<Rightarrow> (error + (jsval list \<times> BufferReader)) option"
  and read_kvs ::
    "nat \<Rightarrow> ttype \<Rightarrow> ttype \<Rightarrow> nat \<Rightarrow> BufferReader
      \<Rightarrow> (error + ((jsval \<times> jsval) list \<times> BufferReader)) option"
  and read_struct_loop ::
    "nat \<Rightarrow> (string \<times> tfield) list \<Rightarrow> (string \<times> jsval) list \<Rightarrow> BufferReader
      \<Rightarrow> (error + (jsval \<times> BufferReader)) option"
where
  "read_val_recursive 0 field r = None"
| "read_val_recursive (Suc fuel) field r =
     (case field of
        TStruct shape \<Rightarrow>
          if length shape = 0 then Some (Inl EmptyStructRead)
          else
            (case read_struct_loop fuel shape [] (r_push_stack r) of
               None \<Rightarrow> None
             | Some (Inl e) \<Rightarrow> Some (Inl e)
             | Some (Inr (val, r')) \<Rightarrow> Some (Inr (val, r_pop_stack r')))
      | TMap key value \<Rightarrow>
          (case read_map_header r of
             Inl e \<Rightarrow> Some (Inl e)
           | Inr ((key_type, value_type, len), r1) \<Rightarrow>
               if len = 0 then Some (Inr (VObj [], r1))
               else if key_type \<noteq> thrift_type key then Some (Inl TypeMismatch)
               else if value_type \<noteq> thrift_type value then Some (Inl TypeMismatch)
               else if len < 0 then Some (Inl RangeError)
               else
                 (case read_kvs fuel key value (nat len) r1 of
                    None \<Rightarrow> None
                  | Some (Inl e) \<Rightarrow> Some (Inl e)
                  | Some (Inr (kvs, r2)) \<Rightarrow>
                      (case fromEntries [] kvs of
                         Inl e \<Rightarrow> Some (Inl e)
                       | Inr obj \<Rightarrow> Some (Inr (obj, r2)))))
      | TList item \<Rightarrow>
          (case read_list_header r of
             Inl e \<Rightarrow> Some (Inl e)
           | Inr ((item_type, len), r1) \<Rightarrow>
               if len = 0 then Some (Inr (VArr [], r1))
               else if item_type \<noteq> thrift_type item then Some (Inl TypeMismatch)
               else if len < 0 then Some (Inl RangeError)
               else
                 (case read_items fuel item (nat len) r1 of
                    None \<Rightarrow> None
                  | Some (Inl e) \<Rightarrow> Some (Inl e)
                  | Some (Inr (vs, r2)) \<Rightarrow> Some (Inr (VArr vs, r2))))
      | TSet item \<Rightarrow>
          (case read_list_header r of
             Inl e \<Rightarrow> Some (Inl e)
           | Inr ((item_type, len), r1) \<Rightarrow>
               if len = 0 then Some (Inr (VArr [], r1))
               else if item_type \<noteq> thrift_type item then Some (Inl TypeMismatch)
               else if len < 0 then Some (Inl RangeError)
               else
                 (case read_items fuel item (nat len) r1 of
                    None \<Rightarrow> None
                  | Some (Inl e) \<Rightarrow> Some (Inl e)
                  | Some (Inr (vs, r2)) \<Rightarrow> Some (Inr (VArr vs, r2))))
      | TBinary STRING \<Rightarrow>
          (case readVarInt r of
             Inl e \<Rightarrow> Some (Inl e)
           | Inr (len, r1) \<Rightarrow>
               (let (buf, r2) = readBinary len r1 in Some (Inr (VStr (utf8_string buf), r2))))
      | _ \<Rightarrow> Some (read_val (thrift_type field) r))"
| "read_items 0 item count r = None"
| "read_items (Suc fuel) item count r =
     (case count of
        0 \<Rightarrow> Some (Inr ([], r))
      | Suc k \<Rightarrow>
          (case read_val_recursive fuel item r of
             None \<Rightarrow> None
           | Some (Inl e) \<Rightarrow> Some (Inl e)
           | Some (Inr (v, r1)) \<Rightarrow>
               (case read_items fuel item k r1 of
                  None \<Rightarrow> None
                | Some (Inl e) \<Rightarrow> Some (Inl e)
                | Some (Inr (vs, r2)) \<Rightarrow> Some (Inr (v # vs, r2)))))"
| "read_kvs 0 key_type value_type count r = None"
| "read_kvs (Suc fuel) key_type value_type count r =
     (case count of
        0 \<Rightarrow> Some (Inr ([], r))
      | Suc k \<Rightarrow>
          (case read_val_recursive fuel key_type r of
             None \<Rightarrow> None
           | Some (Inl e) \<Rightarrow> Some (Inl e)
           | Some (Inr (key, r1)) \<Rightarrow>
               (case read_val_recursive fuel value_type r1 of
                  None \<Rightarrow> None
                | Some (Inl e) \<Rightarrow> Some (Inl e)
                | Some (Inr (v, r2)) \<Rightarrow>
                    (case read_kvs fuel key_type value_type k r2 of
                       None \<Rightarrow> None
                     | Some (Inl e) \<Rightarrow> Some (Inl e)
                     | Some (Inr (kvs, r3)) \<Rightarrow> Some (Inr ((key, v) # kvs, r3))))))"
| "read_struct_loop 0 flds response r = None"
| "read_struct_loop (Suc fuel) flds response r =
     (if r_cursor r < int (length (r_buffer r)) then
        (case read_field r of
           Inl e \<Rightarrow> Some (Inl e)
         | Inr ((field_type, field_index), r1) \<Rightarrow>
             if field_type = STOP then Some (Inr (VObj response, r1))
             else
               (case find (\<lambda>(keyName, field). number field = field_index) flds of
                  Some (keyName, field) \<Rightarrow>
                    (let expected_type =
                           (if isThriftBoolean field_type then BOOLEAN else field_type) in
                     if thrift_type (ftype field) \<noteq> expected_type then Some (Inl TypeMismatch)
                     else if expected_type = BOOLEAN then
                       read_struct_loop fuel flds
                         (obj_assign response keyName (VBool (field_type = TRUE))) r1
                     else
                       (case read_val_recursive fuel (ftype field) r1 of
                          None \<Rightarrow> None
                        | Some (Inl e) \<Rightarrow> Some (Inl e)
                        | Some (Inr (v, r2)) \<Rightarrow>
                            read_struct_loop fuel flds (obj_assign response keyName v) r2))
                | None \<Rightarrow>
                    (case skip fuel field_type r1 of
                       None \<Rightarrow> None
                     | Some (Inl e) \<Rightarrow> Some (Inl e)
                     | Some (Inr r2) \<Rightarrow> read_struct_loop fuel flds response r2)))
      else Some (Inr (VObj response, r)))"
  by pat_completeness auto

termination read_val_recursive
  by (relation
      "measure (case_sum
         (case_sum (\<lambda>(fuel, field, r). fuel) (\<lambda>(fuel, item, count, r). fuel))
         (case_sum (\<lambda>(fuel, key_type, value_type, count, r). fuel)
            (\<lambda>(fuel, flds, response, r). fuel)))")
    auto

definition read_struct ::
  "nat \<Rightarrow> ttype \<Rightarrow> BufferReader \<Rightarrow> (error + (jsval \<times> BufferReader)) option" where
  "read_struct fuel struct r =
     (case struct of
        TStruct shape \<Rightarrow> read_struct_loop fuel shape [] r
      | _ \<Rightarrow> Some (Inl IllTyped))"

definition thriftReadToObject ::
  "nat \<Rightarrow> byte list \<Rightarrow> ttype \<Rightarrow> (error + jsval) option" where
  "thriftReadToObject fuel buffer struct =
     (case read_struct fuel struct (new_BufferReader buffer) of
        None \<Rightarrow> None
      | Some (Inl e) \<Rightarrow> Some (Inl e)
      | Some (Inr (val, reader)) \<Rightarrow> Some (Inr val))"

section \<open>Evaluation\<close>

lemmas js_defs =
  to_int32_def js_and_def js_or_def js_xor_def js_not_def js_shl_def js_sar_def

lemmas writer_defs =
  new_BufferWriter_def w_push_stack_def w_pop_stack_def writeBuffer_def write_byte_def
  bigintToZigZag_def toZigZag_def write_varint.simps write_bigint_varint.simps
  write_word_def write_int_def write_long_def write_field_begin_def write_string_def
  to_number_def write_val_def write_list_def write_map_def write_stop_def
  write_struct_begin_def write_struct.simps thriftWriteFromObject_def utf8_bytes_def

lemmas reader_defs =
  new_BufferReader_def r_push_stack_def r_pop_stack_def move_def readUInt8_def
  readInt8_def readBytesLE_def readByte_def readSByte_def fromZigZag_def
  fromZigZagToBigInt_def readVarInt_loop.simps readVarInt_def readVarBigint_loop.simps
  readVarBigint_def slice_index_def js_slice_def readBinary_def read_field_def
  read_val_def read_list_header_def read_map_header_def property_key_def
  read_struct_def thriftReadToObject_def isThriftBoolean_def utf8_string_def

section \<open>The varint writer on 32-bit numbers\<close>

lemma writeBuffer_writeBuffer: "writeBuffer bs2 (writeBuffer bs1 w) = writeBuffer (bs1 @ bs2) w"
  by (simp add: writeBuffer_def)

lemma js_and_255_range: "0 \<le> js_and num 255" "js_and num 255 \<le> 255"
proof -
  have "js_and num 255 = to_int32 num AND mask 8"
    by (simp add: js_and_def to_int32_id mask_eq_exp_minus_1)
  then have eq: "js_and num 255 = to_int32 num mod 256"
    by (simp add: take_bit_eq_mask [symmetric] take_bit_eq_mod)
  show "0 \<le> js_and num 255" "js_and num 255 \<le> 255"
    unfolding eq by simp_all
qed

lemma js_or_128_range:
  assumes "0 \<le> x" "x \<le> 255"
  shows "128 \<le> js_or x 128" "js_or x 128 \<le> 255"
proof -
  have eq: "js_or x 128 = x OR 128"
    using assms by (simp add: js_or_def to_int32_id)
  have "x OR 128 < 2 ^ 8"
    using assms by (intro OR_upper) simp_all
  then show "js_or x 128 \<le> 255" by (simp add: eq)
  have "128 \<le> x OR 128"
    using or_greater_eq [of x 128] assms by (simp add: or.commute)
  then show "128 \<le> js_or x 128" by (simp add: eq)
qed

lemma write_byte_ok: "0 \<le> b \<Longrightarrow> b \<le> 255 \<Longrightarrow> write_byte b w = Inr (writeBuffer [word_of_int b] w)"
  by (simp add: write_byte_def)

lemma js_sar_7_range: "- 2147483648 \<le> js_sar num 7" "js_sar num 7 < 2147483648"
  using to_int32_range [of num] by (simp_all add: js_sar_7)

lemma write_varint_appends:
  "- 2147483648 \<le> num \<Longrightarrow> num < 2147483648
    \<Longrightarrow> \<exists>bs. bs \<noteq> [] \<and> (\<forall>w. write_varint num w = Inr (writeBuffer bs w))"
proof (induction "varint_measure num" arbitrary: num rule: less_induct)
  case less
  have id: "to_int32 num = num" using less.prems by (simp add: to_int32_id)
  consider (a) "js_and num (js_not 127) = 0" | (b) "js_and num (js_not 127) = - 128"
    | (c) "js_and num (js_not 127) \<noteq> 0" "js_and num (js_not 127) \<noteq> - 128"
    by blast
  then show ?case
  proof cases
    case a
    then have "0 \<le> num \<and> num \<le> 255"
      by (simp add: js_and_not_127 id) linarith
    then have "\<forall>w. write_varint num w = Inr (writeBuffer [word_of_int num] w)"
      using a by (simp add: write_varint.simps write_byte_ok)
    then show ?thesis by blast
  next
    case b
    then have "\<forall>w. write_varint num w = Inr (writeBuffer [word_of_int 0] w)"
      by (simp add: write_varint.simps write_byte_ok)
    then show ?thesis by blast
  next
    case c
    let ?b = "js_or (js_and num 255) 128"
    have rng: "0 \<le> ?b" "?b \<le> 255"
      using js_or_128_range [OF js_and_255_range, of num] by simp_all
    from less.hyps [OF varint_measure_decreases [OF c] js_sar_7_range]
    obtain bs where bs: "\<forall>w. write_varint (js_sar num 7) w = Inr (writeBuffer bs w)"
      by blast
    have "\<forall>w. write_varint num w = Inr (writeBuffer (word_of_int ?b # bs) w)"
      using c rng bs by (simp add: write_varint.simps [of num] write_byte_ok writeBuffer_writeBuffer)
    then show ?thesis by blast
  qed
qed

definition varint_bytes :: "int \<Rightarrow> byte list" where
  "varint_bytes num =
     (case write_varint num new_BufferWriter of Inl e \<Rightarrow> [] | Inr w \<Rightarrow> w_buffer w)"

lemma write_varint_bytes:
  assumes "- 2147483648 \<le> num" "num < 2147483648"
  shows "write_varint num w = Inr (writeBuffer (varint_bytes num) w)"
    and "varint_bytes num \<noteq> []"
proof -
  from write_varint_appends [OF assms] obtain bs
    where bs: "bs \<noteq> []" "\<And>w. write_varint num w = Inr (writeBuffer bs w)"
    by blast
  have "varint_bytes num = bs"
    by (simp add: varint_bytes_def bs writeBuffer_def new_BufferWriter_def)
  with bs show "write_varint num w = Inr (writeBuffer (varint_bytes num) w)"
    and "varint_bytes num \<noteq> []" by simp_all
qed


lemma signed_take_bit_xor_int:
  "signed_take_bit n (a XOR b) = signed_take_bit n a XOR signed_take_bit n (b::int)"
  by (rule bit_eqI) (auto simp: bit_simps)

lemma js_xor_range: "- 2147483648 \<le> js_xor a b" "js_xor a b < 2147483648"
proof -
  have "js_xor a b = to_int32 (a XOR b)"
    by (simp add: js_xor_def to_int32_def signed_take_bit_xor_int)
  then show "- 2147483648 \<le> js_xor a b" "js_xor a b < 2147483648"
    by (simp_all add: to_int32_range)
qed

lemma toZigZag_range: "- 2147483648 \<le> toZigZag n bits" "toZigZag n bits < 2147483648"
  by (simp_all add: toZigZag_def js_xor_range)

lemma write_word_bytes:
  "write_word val w = Inr (writeBuffer (varint_bytes (toZigZag val 16)) w)"
  by (simp add: write_word_def write_varint_bytes toZigZag_range)


lemma header_byte_range:
  assumes "0 < delta" "delta < 16" "0 \<le> type" "type \<le> 255"
  shows "0 \<le> js_or (js_shl delta 4) type" "js_or (js_shl delta 4) type \<le> 255"
proof -
  have shl: "js_shl delta 4 = 16 * delta"
    using assms by (simp add: js_shl_def to_int32_id push_bit_eq_mult)
  have eq: "js_or (js_shl delta 4) type = (16 * delta) OR type"
    using assms by (simp add: shl js_or_def to_int32_id)
  have "(16 * delta) OR type < 2 ^ 8"
    using assms by (intro OR_upper) simp_all
  then show "js_or (js_shl delta 4) type \<le> 255" by (simp add: eq)
  show "0 \<le> js_or (js_shl delta 4) type"
    using assms by (simp add: eq)
qed

lemma write_field_begin_eq:
  assumes "0 \<le> type" "type \<le> 255"
  shows "write_field_begin field_id type w =
    Inr ((writeBuffer
            (if 0 < field_id - w_prev_field_id w \<and> field_id - w_prev_field_id w < 16
             then [word_of_int (js_or (js_shl (field_id - w_prev_field_id w) 4) type)]
             else word_of_int type # varint_bytes (toZigZag field_id 16)) w)
          \<lparr>w_prev_field_id := field_id\<rparr>)"
proof -
  define delta where "delta = field_id - w_prev_field_id w"
  show ?thesis
    unfolding write_field_begin_def Let_def delta_def [symmetric]
  proof (cases "0 < delta \<and> delta < 16")
    case True
    then show "(case if 0 < delta \<and> delta < 16
                     then write_byte (js_or (js_shl delta 4) type) w
                     else case write_byte type w of
                            Inl e \<Rightarrow> Inl e
                          | Inr w' \<Rightarrow> write_word field_id w' of
                  Inl e \<Rightarrow> Inl e
                | Inr w' \<Rightarrow> Inr (w'\<lparr>w_prev_field_id := field_id\<rparr>)) =
               Inr (writeBuffer
                      (if 0 < delta \<and> delta < 16
                       then [word_of_int (js_or (js_shl delta 4) type)]
                       else word_of_int type # varint_bytes (toZigZag field_id 16)) w
                    \<lparr>w_prev_field_id := field_id\<rparr>)"
      using header_byte_range [of delta type] assms by (simp add: write_byte_ok)
  next
    case False
    then show "(case if 0 < delta \<and> delta < 16
                     then write_byte (js_or (js_shl delta 4) type) w
                     else case write_byte type w of
                            Inl e \<Rightarrow> Inl e
                          | Inr w' \<Rightarrow> write_word field_id w' of
                  Inl e \<Rightarrow> Inl e
                | Inr w' \<Rightarrow> Inr (w'\<lparr>w_prev_field_id := field_id\<rparr>)) =
               Inr (writeBuffer
                      (if 0 < delta \<and> delta < 16
                       then [word_of_int (js_or (js_shl delta 4) type)]
                       else word_of_int type # varint_bytes (toZigZag field_id 16)) w
                    \<lparr>w_prev_field_id := field_id\<rparr>)"
      using assms by (auto simp add: write_byte_ok write_word_bytes writeBuffer_writeBuffer)
  qed
qed

lemma write_field_begin_Inr:
  "0 \<le> type \<Longrightarrow> type \<le> 255 \<Longrightarrow> \<exists>w'. write_field_begin field_id type w = Inr w'"
  by (simp add: write_field_begin_eq)

lemma list_header_byte_range:
  assumes "0 \<le> len" "len < 15" "0 \<le> type" "type \<le> 255"
  shows "0 \<le> js_or (js_shl len 4) type" "js_or (js_shl len 4) type \<le> 255"
proof -
  have shl: "js_shl len 4 = 16 * len"
    using assms by (simp add: js_shl_def to_int32_id push_bit_eq_mult)
  have eq: "js_or (js_shl len 4) type = (16 * len) OR type"
    using assms by (simp add: shl js_or_def to_int32_id)
  have "(16 * len) OR type < 2 ^ 8"
    using assms by (intro OR_upper) simp_all
  then show "js_or (js_shl len 4) type \<le> 255" by (simp add: eq)
  show "0 \<le> js_or (js_shl len 4) type"
    using assms by (simp add: eq)
qed

lemma long_list_header_byte_range:
  assumes "0 \<le> type" "type \<le> 255"
  shows "0 \<le> js_or 240 type" "js_or 240 type \<le> 255"
proof -
  have eq: "js_or 240 type = 240 OR type"
    using assms by (simp add: js_or_def to_int32_id)
  have "240 OR type < 2 ^ 8"
    using assms by (intro OR_upper) simp_all
  then show "js_or 240 type \<le> 255" by (simp add: eq)
  show "0 \<le> js_or 240 type"
    using assms by (simp add: eq)
qed

definition field_header_bytes :: "int \<Rightarrow> int \<Rightarrow> int \<Rightarrow> byte list" where
  "field_header_bytes prev field_id type =
     (if 0 < field_id - prev \<and> field_id - prev < 16
      then [word_of_int (js_or (js_shl (field_id - prev) 4) type)]
      else word_of_int type # varint_bytes (toZigZag field_id 16))"

definition list_header_bytes :: "int \<Rightarrow> int \<Rightarrow> byte list" where
  "list_header_bytes item_type len =
     (if len < 15 then [word_of_int (js_or (js_shl len 4) item_type)]
      else word_of_int (js_or 240 item_type) # varint_bytes len)"

lemma write_field_begin_bytes:
  "0 \<le> type \<Longrightarrow> type \<le> 255 \<Longrightarrow>
    write_field_begin field_id type w =
      Inr ((writeBuffer (field_header_bytes (w_prev_field_id w) field_id type) w)
            \<lparr>w_prev_field_id := field_id\<rparr>)"
  by (simp add: write_field_begin_eq field_header_bytes_def)

lemma list_header_write:
  assumes "0 \<le> n" "n < 2147483648" "0 \<le> t" "t \<le> 255"
  shows "(if n < 15 then write_byte (js_or (js_shl n 4) t) w
          else (case write_byte (js_or 240 t) w of
                  Inl e \<Rightarrow> Inl e
                | Inr w2 \<Rightarrow> write_varint n w2)) =
         Inr (writeBuffer (list_header_bytes t n) w)"
  using list_header_byte_range [of n t] long_list_header_byte_range [of t] assms
  by (simp add: list_header_bytes_def write_byte_ok write_varint_bytes writeBuffer_writeBuffer)

lemma write_list_eq:
  assumes "length xs < 2147483648" "0 \<le> item_type" "item_type \<le> 255"
  shows "write_list field_id item_type (VArr xs) w =
    forEach (\<lambda>v. write_val None item_type v) xs
      (writeBuffer (list_header_bytes item_type (int (length xs)))
        ((writeBuffer (field_header_bytes (w_prev_field_id w) field_id LIST) w)
          \<lparr>w_prev_field_id := field_id\<rparr>))"
proof -
  have fh: "write_field_begin field_id LIST w =
      Inr ((writeBuffer (field_header_bytes (w_prev_field_id w) field_id LIST) w)
            \<lparr>w_prev_field_id := field_id\<rparr>)"
    by (simp add: write_field_begin_bytes)
  have lh: "(if int (length xs) < 15
             then write_byte (js_or (js_shl (int (length xs)) 4) item_type) w'
             else (case write_byte (js_or 240 item_type) w' of
                     Inl e \<Rightarrow> Inl e
                   | Inr w2 \<Rightarrow> write_varint (int (length xs)) w2)) =
         Inr (writeBuffer (list_header_bytes item_type (int (length xs))) w')" for w'
    using assms by (intro list_header_write) simp_all
  show ?thesis
    unfolding write_list_def fh sum.case jsval.case lh ..
qed

section \<open>What the traversals keep\<close>

text \<open>
  The reader's primitives fail with a RangeError or an unknown type only, and no call
  changes the buffer or the stack of saved field ids; only \<^verbatim>\<open>read_field\<close> changes
  \<open>prev_field_id\<close>.
\<close>

definition wire_error :: "error \<Rightarrow> bool" where
  "wire_error e = (e = RangeError \<or> e = UnknownType)"

lemma readByte_error: "readByte r = Inl e \<Longrightarrow> wire_error e"
  by (auto simp: readByte_def readUInt8_def wire_error_def Let_def split: prod.splits if_splits)

lemma readSByte_error: "readSByte r = Inl e \<Longrightarrow> wire_error e"
  by (auto simp: readSByte_def readInt8_def wire_error_def Let_def split: prod.splits if_splits)

lemma readVarInt_loop_error: "readVarInt_loop shift result r = Inl e \<Longrightarrow> wire_error e"
proof (induction shift result r rule: readVarInt_loop.induct)
  case (1 shift result r)
  then show ?case
    by (subst (asm) (2) readVarInt_loop.simps)
      (auto simp: Let_def dest: readByte_error split: if_splits sum.splits prod.splits)
qed

lemma readVarInt_error: "readVarInt r = Inl e \<Longrightarrow> wire_error e"
  by (simp add: readVarInt_def readVarInt_loop_error)

lemma readVarBigint_loop_error: "readVarBigint_loop shift result r = Inl e \<Longrightarrow> wire_error e"
proof (induction shift result r rule: readVarBigint_loop.induct)
  case (1 shift result r)
  then show ?case
    by (subst (asm) (2) readVarBigint_loop.simps)
      (auto simp: Let_def dest: readByte_error split: if_splits sum.splits prod.splits)
qed

lemma readVarBigint_error: "readVarBigint r = Inl e \<Longrightarrow> wire_error e"
  by (simp add: readVarBigint_def readVarBigint_loop_error)

lemma read_field_error: "read_field r = Inl e \<Longrightarrow> wire_error e"
  by (auto simp: read_field_def Let_def dest: readByte_error readVarInt_error
      split: if_splits sum.splits prod.splits)

lemma read_val_error: "read_val type r = Inl e \<Longrightarrow> wire_error e"
  by (auto simp: read_val_def Let_def readBytesLE_def wire_error_def
      dest: readSByte_error readVarInt_error readVarBigint_error
      split: if_splits sum.splits prod.splits)

lemma read_list_header_error: "read_list_header r = Inl e \<Longrightarrow> wire_error e"
  by (auto simp: read_list_header_def Let_def dest: readByte_error readVarInt_error
      split: if_splits sum.splits prod.splits)

lemma read_map_header_error: "read_map_header r = Inl e \<Longrightarrow> wire_error e"
  by (auto simp: read_map_header_def Let_def dest: readByte_error readVarInt_error
      split: if_splits sum.splits prod.splits)


definition same_stack :: "BufferReader \<Rightarrow> BufferReader \<Rightarrow> bool" where
  "same_stack r r' = (r_stack r' = r_stack r \<and> r_buffer r' = r_buffer r)"

definition same_frame :: "BufferReader \<Rightarrow> BufferReader \<Rightarrow> bool" where
  "same_frame r r' = (same_stack r r' \<and> r_prev_field_id r' = r_prev_field_id r)"

lemma same_frame_refl [simp]: "same_frame r r" "same_stack r r"
  by (simp_all add: same_frame_def same_stack_def)

lemma same_frame_trans: "same_frame a b \<Longrightarrow> same_frame b c \<Longrightarrow> same_frame a c"
  by (simp add: same_frame_def same_stack_def)

lemma same_stack_trans: "same_stack a b \<Longrightarrow> same_stack b c \<Longrightarrow> same_stack a c"
  by (simp add: same_stack_def)

lemma same_frame_stack: "same_frame a b \<Longrightarrow> same_stack a b"
  by (simp add: same_frame_def)

lemma move_frame: "move n r = (off, r') \<Longrightarrow> same_frame r r'"
  by (auto simp: move_def Let_def same_frame_def same_stack_def)

lemma readByte_frame: "readByte r = Inr (b, r') \<Longrightarrow> same_frame r r'"
  by (auto simp: readByte_def Let_def dest: move_frame split: prod.splits sum.splits)

lemma readSByte_frame: "readSByte r = Inr (b, r') \<Longrightarrow> same_frame r r'"
  by (auto simp: readSByte_def Let_def dest: move_frame split: prod.splits sum.splits)

lemma readVarInt_loop_frame:
  "readVarInt_loop shift result r = Inr (n, r') \<Longrightarrow> same_frame r r'"
proof (induction shift result r rule: readVarInt_loop.induct)
  case (1 shift result r)
  show ?case
    using "1.prems" "1.IH"
    by (subst (asm) readVarInt_loop.simps)
      (fastforce simp: Let_def dest: readByte_frame intro: same_frame_trans
        split: if_splits sum.splits prod.splits)
qed


lemma readVarInt_frame: "readVarInt r = Inr (n, r') \<Longrightarrow> same_frame r r'"
  by (simp add: readVarInt_def readVarInt_loop_frame)

lemma readVarBigint_loop_frame:
  "readVarBigint_loop shift result r = Inr (n, r') \<Longrightarrow> same_frame r r'"
proof (induction shift result r rule: readVarBigint_loop.induct)
  case (1 shift result r)
  show ?case
    using "1.prems" "1.IH"
    by (subst (asm) readVarBigint_loop.simps)
      (fastforce simp: Let_def dest: readByte_frame intro: same_frame_trans
        split: if_splits sum.splits prod.splits)
qed

lemma readVarBigint_frame: "readVarBigint r = Inr (n, r') \<Longrightarrow> same_frame r r'"
  by (simp add: readVarBigint_def readVarBigint_loop_frame)

lemma readBinary_frame: "readBinary len r = (buf, r') \<Longrightarrow> same_frame r r'"
  by (auto simp: readBinary_def Let_def dest: move_frame split: prod.splits)

lemma read_field_stack: "read_field r = Inr (h, r') \<Longrightarrow> same_stack r r'"
  by (auto simp: read_field_def Let_def same_frame_def same_stack_def
      dest!: readByte_frame readVarInt_frame split: if_splits sum.splits prod.splits)

lemma read_val_frame: "read_val type r = Inr (v, r') \<Longrightarrow> same_frame r r'"
  by (auto simp: read_val_def Let_def
      dest!: readSByte_frame readVarInt_frame readVarBigint_frame readBinary_frame move_frame
      intro: same_frame_trans split: if_splits sum.splits prod.splits)

lemma read_list_header_frame: "read_list_header r = Inr (h, r') \<Longrightarrow> same_frame r r'"
  by (auto simp: read_list_header_def Let_def dest!: readByte_frame readVarInt_frame
      intro: same_frame_trans split: if_splits sum.splits prod.splits)

lemma read_map_header_frame: "read_map_header r = Inr (h, r') \<Longrightarrow> same_frame r r'"
  by (auto simp: read_map_header_def Let_def same_frame_def same_stack_def
      dest!: readByte_frame readVarInt_frame split: if_splits sum.splits prod.splits)

lemma pop_push_frame:
  "same_stack (r_push_stack r) r' \<Longrightarrow> same_frame r (r_pop_stack r')"
  by (simp add: same_stack_def same_frame_def r_push_stack_def r_pop_stack_def)

lemma skip_frame_all:
  "(\<forall>type r r'. skip fuel type r = Some (Inr r') \<longrightarrow> same_frame r r')
   \<and> (\<forall>r r'. skip_struct fuel r = Some (Inr r') \<longrightarrow> same_stack r r')
   \<and> (\<forall>item_type i len r r'.
        skip_items fuel item_type i len r = Some (Inr r') \<longrightarrow> same_frame r r')
   \<and> (\<forall>key_type value_type i len r r'.
        skip_pairs fuel key_type value_type i len r = Some (Inr r') \<longrightarrow> same_frame r r')"
proof (induction fuel)
  case 0
  show ?case by simp
next
  case (Suc fuel)
  then have ih1: "\<And>type r r'. skip fuel type r = Some (Inr r') \<Longrightarrow> same_frame r r'"
    and ih2: "\<And>r r'. skip_struct fuel r = Some (Inr r') \<Longrightarrow> same_stack r r'"
    and ih3: "\<And>item_type i len r r'.
        skip_items fuel item_type i len r = Some (Inr r') \<Longrightarrow> same_frame r r'"
    and ih4: "\<And>key_type value_type i len r r'.
        skip_pairs fuel key_type value_type i len r = Some (Inr r') \<Longrightarrow> same_frame r r'"
    by blast+
  have a: "same_frame r r'" if "skip (Suc fuel) type r = Some (Inr r')" for type r r'
    using that
    by (auto dest!: read_list_header_frame read_map_header_frame read_val_frame ih2 ih3 ih4
        intro: same_frame_trans pop_push_frame
        split: if_splits sum.splits prod.splits option.splits)
  have b: "same_stack r r'" if "skip_struct (Suc fuel) r = Some (Inr r')" for r r'
    using that
    by (auto split: if_splits sum.splits prod.splits option.splits)
      (blast intro: same_stack_trans same_frame_stack dest: read_field_stack ih1 ih2)+
  have c: "same_frame r r'"
    if "skip_items (Suc fuel) item_type i len r = Some (Inr r')" for item_type i len r r'
    using that
    by (auto split: if_splits sum.splits prod.splits option.splits)
      (blast intro: same_frame_trans dest: ih1 ih3)+
  have d: "same_frame r r'"
    if "skip_pairs (Suc fuel) key_type value_type i len r = Some (Inr r')"
    for key_type value_type i len r r'
    using that
    by (auto split: if_splits sum.splits prod.splits option.splits)
      (blast intro: same_frame_trans dest: ih1 ih4)+
  from a b c d show ?case by blast
qed

lemma skip_frame: "skip fuel type r = Some (Inr r') \<Longrightarrow> same_frame r r'"
  using skip_frame_all by blast


lemma skip_error_all:
  "(\<forall>type r e. skip fuel type r = Some (Inl e) \<longrightarrow> wire_error e)
   \<and> (\<forall>r e. skip_struct fuel r = Some (Inl e) \<longrightarrow> wire_error e)
   \<and> (\<forall>item_type i len r e.
        skip_items fuel item_type i len r = Some (Inl e) \<longrightarrow> wire_error e)
   \<and> (\<forall>key_type value_type i len r e.
        skip_pairs fuel key_type value_type i len r = Some (Inl e) \<longrightarrow> wire_error e)"
proof (induction fuel)
  case 0
  show ?case by simp
next
  case (Suc fuel)
  then have ih1: "\<And>type r e. skip fuel type r = Some (Inl e) \<Longrightarrow> wire_error e"
    and ih2: "\<And>r e. skip_struct fuel r = Some (Inl e) \<Longrightarrow> wire_error e"
    and ih3: "\<And>item_type i len r e.
        skip_items fuel item_type i len r = Some (Inl e) \<Longrightarrow> wire_error e"
    and ih4: "\<And>key_type value_type i len r e.
        skip_pairs fuel key_type value_type i len r = Some (Inl e) \<Longrightarrow> wire_error e"
    by blast+
  have a: "wire_error e" if "skip (Suc fuel) type r = Some (Inl e)" for type r e
    using that
    by (auto dest: read_list_header_error read_map_header_error read_val_error ih2 ih3 ih4
        split: if_splits sum.splits prod.splits option.splits)
  have b: "wire_error e" if "skip_struct (Suc fuel) r = Some (Inl e)" for r e
    using that
    by (auto dest: read_field_error ih1 ih2
        split: if_splits sum.splits prod.splits option.splits)
  have c: "wire_error e"
    if "skip_items (Suc fuel) item_type i len r = Some (Inl e)" for item_type i len r e
    using that
    by (auto dest: ih1 ih3 split: if_splits sum.splits prod.splits option.splits)
  have d: "wire_error e"
    if "skip_pairs (Suc fuel) key_type value_type i len r = Some (Inl e)"
    for key_type value_type i len r e
    using that
    by (auto dest: ih1 ih4 split: if_splits sum.splits prod.splits option.splits)
  from a b c d show ?case by blast
qed

lemma skip_error: "skip fuel type r = Some (Inl e) \<Longrightarrow> wire_error e"
  using skip_error_all by blast

lemma read_struct_loop_no_fields_error:
  "read_struct_loop fuel [] response r = Some (Inl e) \<Longrightarrow> wire_error e"
proof (induction fuel arbitrary: response r)
  case 0
  then show ?case by simp
next
  case (Suc fuel)
  from Suc.prems show ?case
    by (auto dest: read_field_error skip_error Suc.IH
        split: if_splits sum.splits prod.splits option.splits)
qed

lemma read_frame_all:
  "(\<forall>field r v r'. read_val_recursive fuel field r = Some (Inr (v, r')) \<longrightarrow> same_frame r r')
   \<and> (\<forall>item count r vs r'.
        read_items fuel item count r = Some (Inr (vs, r')) \<longrightarrow> same_frame r r')
   \<and> (\<forall>key_type value_type count r kvs r'.
        read_kvs fuel key_type value_type count r = Some (Inr (kvs, r')) \<longrightarrow> same_frame r r')
   \<and> (\<forall>flds response r v r'.
        read_struct_loop fuel flds response r = Some (Inr (v, r')) \<longrightarrow> same_stack r r')"
proof (induction fuel)
  case 0
  show ?case by simp
next
  case (Suc fuel)
  then have ih1: "\<And>field r v r'.
        read_val_recursive fuel field r = Some (Inr (v, r')) \<Longrightarrow> same_frame r r'"
    and ih2: "\<And>item count r vs r'.
        read_items fuel item count r = Some (Inr (vs, r')) \<Longrightarrow> same_frame r r'"
    and ih3: "\<And>key_type value_type count r kvs r'.
        read_kvs fuel key_type value_type count r = Some (Inr (kvs, r')) \<Longrightarrow> same_frame r r'"
    and ih4: "\<And>flds response r v r'.
        read_struct_loop fuel flds response r = Some (Inr (v, r')) \<Longrightarrow> same_stack r r'"
    by blast+
  have a: "same_frame r r'"
    if "read_val_recursive (Suc fuel) field r = Some (Inr (v, r'))" for field r v r'
    using that
    by (auto simp: Let_def
        dest!: read_list_header_frame read_map_header_frame read_val_frame readVarInt_frame
          readBinary_frame ih2 ih3 ih4
        intro: same_frame_trans pop_push_frame
        split: if_splits sum.splits prod.splits option.splits ttype.splits TBinaryType.splits)
  have b: "same_frame r r'"
    if "read_items (Suc fuel) item count r = Some (Inr (vs, r'))" for item count r vs r'
    using that
    by (auto split: if_splits sum.splits prod.splits option.splits nat.splits)
      (blast intro: same_frame_trans dest: ih1 ih2)+
  have c: "same_frame r r'"
    if "read_kvs (Suc fuel) key_type value_type count r = Some (Inr (kvs, r'))"
    for key_type value_type count r kvs r'
    using that
    by (auto split: if_splits sum.splits prod.splits option.splits nat.splits)
      (blast intro: same_frame_trans dest: ih1 ih3)+
  have d: "same_stack r r'"
    if "read_struct_loop (Suc fuel) flds response r = Some (Inr (v, r'))"
    for flds response r v r'
    using that
    by (auto simp: Let_def split: if_splits sum.splits prod.splits option.splits)
      (blast intro: same_stack_trans same_frame_stack
        dest: read_field_stack ih1 ih4 skip_frame)+
  from a b c d show ?case by blast
qed


text \<open>The same for the writer's stack.\<close>

lemma write_byte_stack: "write_byte b w = Inr w' \<Longrightarrow> w_stack w' = w_stack w"
  by (auto simp: write_byte_def writeBuffer_def split: if_splits)

lemma write_varint_stack: "write_varint num w = Inr w' \<Longrightarrow> w_stack w' = w_stack w"
proof (induction num w rule: write_varint.induct)
  case (1 num w)
  show ?case
    using "1.prems" "1.IH"
    by (subst (asm) write_varint.simps)
      (fastforce simp: Let_def dest: write_byte_stack split: if_splits sum.splits)
qed

lemma write_bigint_varint_stack_aux:
  assumes "write_bigint_varint n w = Some y"
  shows "\<forall>w'. y = Inr w' \<longrightarrow> w_stack w' = w_stack w"
proof (rule write_bigint_varint.raw_induct [OF _ assms])
  fix f :: "int \<Rightarrow> BufferWriter \<Rightarrow> (error + BufferWriter) option" and n w y
  assume ih: "\<And>n w y. f n w = Some y \<Longrightarrow> \<forall>w'. y = Inr w' \<longrightarrow> w_stack w' = w_stack w"
    and eq: "(if n AND NOT 127 = 0 then Some (write_byte n w)
      else case write_byte (n AND 127 OR 128) w of
             Inl e \<Rightarrow> Some (Inl e)
           | Inr w' \<Rightarrow> f (drop_bit 7 n) w') = Some y"
  show "\<forall>w'. y = Inr w' \<longrightarrow> w_stack w' = w_stack w"
    using eq ih
    by (fastforce dest: write_byte_stack split: if_splits sum.splits)
qed

lemma write_bigint_varint_stack:
  "write_bigint_varint n w = Some (Inr w') \<Longrightarrow> w_stack w' = w_stack w"
  using write_bigint_varint_stack_aux by blast

lemma write_field_begin_stack:
  "write_field_begin field_id type w = Inr w' \<Longrightarrow> w_stack w' = w_stack w"
  by (auto simp: write_field_begin_def write_word_def Let_def
      dest!: write_byte_stack write_varint_stack split: if_splits sum.splits)

lemma write_field_begin_prev:
  "write_field_begin field_id type w = Inr w' \<Longrightarrow> w_prev_field_id w' = field_id"
  by (auto simp: write_field_begin_def Let_def split: if_splits sum.splits)

lemma write_string_stack: "write_string val w = Inr w' \<Longrightarrow> w_stack w' = w_stack w"
  by (auto simp: write_string_def Let_def writeBuffer_def dest!: write_varint_stack
      split: jsval.splits sum.splits)

lemma write_val_stack:
  "write_val field_id type val w = Some (Inr w') \<Longrightarrow> w_stack w' = w_stack w"
  by (auto simp: write_val_def write_word_def write_int_def write_long_def
      dest!: write_field_begin_stack write_byte_stack write_varint_stack
        write_bigint_varint_stack write_string_stack
      split: if_splits option.splits sum.splits jsval.splits)

lemma forEach_stack:
  assumes "\<And>x s s'. x \<in> set xs \<Longrightarrow> f x s = Some (Inr s') \<Longrightarrow> w_stack s' = w_stack s"
    and "forEach f xs s = Some (Inr s')"
  shows "w_stack s' = w_stack s"
  using assms
proof (induction xs arbitrary: s)
  case Nil
  then show ?case by simp
next
  case (Cons x xs)
  from Cons.prems(2) obtain s1 where s1: "f x s = Some (Inr s1)"
    and rest: "forEach f xs s1 = Some (Inr s')"
    by (auto split: option.splits sum.splits)
  have "w_stack s1 = w_stack s" using Cons.prems(1) [of x s s1] s1 by simp
  moreover have "w_stack s' = w_stack s1"
    using Cons.IH [OF _ rest] Cons.prems(1) by auto
  ultimately show ?case by simp
qed

lemma write_list_stack:
  "write_list field_id item_type val w = Some (Inr w') \<Longrightarrow> w_stack w' = w_stack w"
  by (auto simp: write_list_def
      dest!: write_field_begin_stack write_byte_stack write_varint_stack
        forEach_stack [rotated] write_val_stack
      split: if_splits sum.splits jsval.splits)


lemma write_map_stack:
  assumes "write_map field_id key_type value_type val w = Some (Inr w')"
  shows "w_stack w' = w_stack w"
proof -
  from assms obtain kvs w1 where val: "val = VObj kvs"
    and w1: "write_field_begin field_id MAP w = Inr w1"
    by (auto simp: write_map_def split: sum.splits jsval.splits)
  have s1: "w_stack w1 = w_stack w" using w1 by (rule write_field_begin_stack)
  show ?thesis
  proof (cases "int (length kvs) = 0")
    case True
    with assms val w1 have "write_byte 0 w1 = Inr w'"
      by (simp add: write_map_def)
    then show ?thesis using s1 by (simp add: write_byte_stack)
  next
    case False
    with assms val w1 obtain w2 w3 where w2: "write_varint (int (length kvs)) w1 = Inr w2"
      and w3: "write_byte (js_or (js_shl (js_and key_type 15) 4) (js_and value_type 15)) w2
                = Inr w3"
      and fe: "forEach
                 (\<lambda>(k, v) w4.
                    case write_val None key_type (VStr k) w4 of
                      None \<Rightarrow> None
                    | Some (Inl e) \<Rightarrow> Some (Inl e)
                    | Some (Inr w5) \<Rightarrow> write_val None value_type v w5)
                 kvs w3 = Some (Inr w')"
      by (auto simp: write_map_def Let_def split: sum.splits)
    have "w_stack w' = w_stack w3"
      by (rule forEach_stack [OF _ fe])
        (auto dest!: write_val_stack split: option.splits sum.splits)
    then show ?thesis
      using s1 write_varint_stack [OF w2] write_byte_stack [OF w3] by simp
  qed
qed

lemma write_stop_stack:
  "write_stop w = Inr w' \<Longrightarrow>
    w_stack w' = tl (w_stack w) \<and> (w_stack w \<noteq> [] \<longrightarrow> w_prev_field_id w' = hd (w_stack w))"
  by (auto simp: write_stop_def write_byte_def writeBuffer_def w_pop_stack_def
      split: sum.splits if_splits list.splits)

lemma write_struct_begin_stack:
  "write_struct_begin field_id w = Inr w' \<Longrightarrow>
    w_stack w' = field_id # w_stack w \<and> w_prev_field_id w' = 0"
  by (auto simp: write_struct_begin_def w_push_stack_def
      dest: write_field_begin_stack write_field_begin_prev split: sum.splits)

lemma write_struct_stack:
  "write_struct obj struct w = Some (Inr w') \<Longrightarrow>
    w_stack w' = tl (w_stack w) \<and> (w_stack w \<noteq> [] \<longrightarrow> w_prev_field_id w' = hd (w_stack w))"
proof (induction "size struct" arbitrary: obj struct w w' rule: less_induct)
  case less
  from less.prems obtain shape entries where struct: "struct = TStruct shape"
    and obj: "obj = VObj entries"
    by (subst (asm) write_struct.simps) (auto split: ttype.splits jsval.splits)
  define F where "F = (\<lambda>(keyName, field) w1.
      case find (\<lambda>(k, v). keyName = k) entries of
        None \<Rightarrow> Some (Inr w1)
      | Some entry \<Rightarrow>
          (case ftype field of
             TList item \<Rightarrow> write_list (number field) (thrift_type item) (snd entry) w1
           | TSet item \<Rightarrow> write_list (number field) (thrift_type item) (snd entry) w1
           | TMap key val \<Rightarrow>
               write_map (number field) (thrift_type key) (thrift_type val) (snd entry) w1
           | TStruct sub \<Rightarrow>
               (case write_struct_begin (number field) w1 of
                  Inl e \<Rightarrow> Some (Inl e)
                | Inr w2 \<Rightarrow> write_struct (snd entry) (ftype field) w2)
           | _ \<Rightarrow> write_val (Some (number field)) (thrift_type (ftype field)) (snd entry) w1))"
  from less.prems obtain w1
    where body: "(if length entries \<noteq> 0 then forEach F shape w else Some (Inr w)) = Some (Inr w1)"
      and stop: "write_stop w1 = Inr w'"
    unfolding F_def struct obj
    by (subst (asm) write_struct.simps) (auto split: option.splits sum.splits)
  have step: "w_stack s' = w_stack s" if x: "x \<in> set shape" and fx: "F x s = Some (Inr s')"
    for x s s'
  proof -
    obtain keyName field where xk: "x = (keyName, field)" by (cases x)
    show ?thesis
    proof (cases "find (\<lambda>(k, v). keyName = k) entries")
      case None
      with fx show ?thesis by (simp add: F_def xk)
    next
      case (Some entry)
      show ?thesis
      proof (cases "ftype field")
        case (TStruct sub)
        with fx Some obtain w2 where w2: "write_struct_begin (number field) s = Inr w2"
          and inner: "write_struct (snd entry) (ftype field) w2 = Some (Inr s')"
          by (auto simp: F_def xk split: sum.splits)
        have "size (ftype field) < size struct"
          using size_field_in_shape [of keyName field shape] x by (simp add: xk struct)
        from less.hyps [OF this inner] write_struct_begin_stack [OF w2]
        show ?thesis by simp
      qed (use fx Some in \<open>auto simp: F_def xk
            dest: write_list_stack write_map_stack write_val_stack\<close>)
    qed
  qed
  have "w_stack w1 = w_stack w"
  proof (cases "length entries \<noteq> 0")
    case True
    with body have "forEach F shape w = Some (Inr w1)" by simp
    from forEach_stack [OF step this] show ?thesis by simp
  next
    case False
    with body show ?thesis by simp
  qed
  with write_stop_stack [OF stop] show ?case by simp
qed


section \<open>Varints and header bytes in closed form\<close>





lemma and_127: "(x::int) AND 127 = x mod 128"
proof -
  have "x AND mask 7 = x mod 128"
    by (simp add: take_bit_eq_mask [symmetric] take_bit_eq_mod)
  then show ?thesis by (simp add: mask_eq_exp_minus_1)
qed

lemma and_15: "(x::int) AND 15 = x mod 16"
proof -
  have "x AND mask 4 = x mod 16"
    by (simp add: take_bit_eq_mask [symmetric] take_bit_eq_mod)
  then show ?thesis by (simp add: mask_eq_exp_minus_1)
qed

lemma and_240_shift: "drop_bit 4 ((x::int) AND 240) = (x div 16) mod 16"
proof -
  have "drop_bit 4 (x AND 240) = drop_bit 4 x AND drop_bit 4 240"
    by (rule bit_eqI) (simp add: bit_simps)
  also have "\<dots> = (x div 16) AND mask 4"
    by (simp add: drop_bit_eq_div mask_eq_exp_minus_1)
  finally show ?thesis
    by (simp add: take_bit_eq_mask [symmetric] take_bit_eq_mod)
qed

lemma or_disjoint: "0 \<le> a \<Longrightarrow> a < 2 ^ k \<Longrightarrow> (a::int) OR push_bit k b = a + push_bit k b"
  by (metis concat_bit_def concat_bit_eq take_bit_int_eq_self_iff)

lemma or_disjoint_128: "0 \<le> a \<Longrightarrow> a < 128 \<Longrightarrow> (a::int) OR 128 = a + 128"
proof -
  assume a: "0 \<le> a" "a < 128"
  have p: "push_bit 7 (1::int) = 128" by simp
  have "a OR push_bit 7 1 = a + push_bit 7 1"
    using a by (intro or_disjoint) simp_all
  then show ?thesis unfolding p .
qed


lemma and_128_low: "0 \<le> b \<Longrightarrow> b < 128 \<Longrightarrow> (b::int) AND 128 = 0"
proof -
  assume b: "0 \<le> b" "b < 128"
  have "b div 2 ^ 7 = 0" using b by simp
  then have "\<not> bit b 7" unfolding bit_int_def by simp
  then show ?thesis using and_exp_eq_0_iff_not_bit [of b 7] by simp
qed

lemma and_128_high: "128 \<le> b \<Longrightarrow> b < 256 \<Longrightarrow> (b::int) AND 128 = 128"
proof -
  assume b: "128 \<le> b" "b < 256"
  then have y: "0 \<le> b - 128" "b - 128 < 128" by simp_all
  have e: "(b - 128) OR 128 = b"
    unfolding or_disjoint_128 [OF y] by simp
  have "b AND 128 = 128 AND ((b - 128) OR 128)" unfolding e by (rule and.commute)
  also have "\<dots> = (128 AND (b - 128)) OR (128 AND 128)"
    by (rule bit.conj_disj_distrib)
  also have "\<dots> = 128"
    using and_128_low [of "b - 128"] y by (simp add: and.commute)
  finally show ?thesis .
qed




lemma js_sar_small:
  "- 2147483648 \<le> a \<Longrightarrow> a < 2147483648 \<Longrightarrow> 0 \<le> k \<Longrightarrow> k < 32
    \<Longrightarrow> js_sar a k = a div 2 ^ nat k"
  by (simp add: js_sar_def to_int32_id drop_bit_eq_div)




lemma xor_minus_1: "(x::int) XOR - 1 = - x - 1"
  by (simp add: not_int_def [symmetric])




section \<open>The bytes of a struct\<close>


lemma w_buffer_writeBuffer [simp]: "w_buffer (writeBuffer bs w) = w_buffer w @ bs"
  "w_prev_field_id (writeBuffer bs w) = w_prev_field_id w"
  "w_stack (writeBuffer bs w) = w_stack w"
  by (simp_all add: writeBuffer_def)





























declare write_bigint_varint.simps [code]








section \<open>Claims about the writer\<close>

text \<open>
  C2. Zigzag law: for every width \<open>w\<close> in 16, 32, 64 and every \<open>n\<close> in the signed range
  of \<open>w\<close>, \<^verbatim>\<open>fromZigZag(toZigZag(n, w)) = n\<close>. The code breaks it at width 32:
  \<open>2 ^ 30\<close> is in the signed 32-bit range, \<^verbatim>\<open>toZigZag\<close> gives the 32-bit pattern of
  \<open>2 ^ 31\<close>, which JavaScript holds as \<open>- 2 ^ 31\<close>, and \<^verbatim>\<open>fromZigZag\<close> shifts it with the
  sign-keeping \<^verbatim>\<open>>>\<close>, so \<open>- 2 ^ 30\<close> comes back.
\<close>

theorem zigzag32_roundtrip_fails:
  "- (2 ^ 31) \<le> (1073741824::int) \<and> (1073741824::int) < 2 ^ 31
   \<and> toZigZag 1073741824 32 = - 2147483648
   \<and> fromZigZag (toZigZag 1073741824 32) = - 1073741824"
  by (simp add: toZigZag_def fromZigZag_def js_defs)

theorem zigzag32_roundtrip_fails_witness:
  "fromZigZag (toZigZag 1073741824 32) \<noteq> 1073741824"
proof -
  have "fromZigZag (toZigZag 1073741824 32) = - 1073741824"
    using zigzag32_roundtrip_fails by blast
  then show ?thesis by simp
qed

text \<open>
  C3. Varint law: for every unsigned \<open>n\<close> that fits the target width, reading back the
  written varint gives \<open>n\<close>, and the bytes written are \<open>ceil (bits n / 7)\<close>, at least 1.
  The code breaks it on 32-bit values from \<open>2 ^ 31\<close> on: \<open>2 ^ 31\<close> is written as
  \<open>80 80 80 80 00\<close> and read back as 0, and \<open>2 ^ 32 - 1\<close> is written as the one byte \<open>00\<close>.
\<close>

theorem varint_roundtrip_fails:
  "write_varint 2147483648 new_BufferWriter =
     Inr \<lparr>w_buffer = [128, 128, 128, 128, 0], w_cursor = 5, w_prev_field_id = 0, w_stack = []\<rparr>
   \<and> map_sum id fst (readVarInt (new_BufferReader [128, 128, 128, 128, 0])) = Inr 0
   \<and> write_varint 4294967295 new_BufferWriter =
     Inr \<lparr>w_buffer = [0], w_cursor = 1, w_prev_field_id = 0, w_stack = []\<rparr>"
  by (simp add: writer_defs reader_defs js_defs)

theorem varint_roundtrip_fails_witness:
  "map_sum id fst (readVarInt (new_BufferReader [128, 128, 128, 128, 0])) \<noteq> Inr 2147483648"
proof -
  have "map_sum id fst (readVarInt (new_BufferReader [128, 128, 128, 128, 0])) = Inr 0"
    using varint_roundtrip_fails by blast
  then show ?thesis by simp
qed




text \<open>
  C8. A boolean struct field is written as a field header alone, whose type tag is TRUE
  or FALSE after the value, with no value byte: \<open>{foo: true}\<close> under
  \<open>struct{foo: field(1, bool)}\<close> is the two bytes \<open>11 00\<close>. A boolean written with no field
  id, as the element of a list, set or map, fails with InvalidBooleanContext.
\<close>

theorem boolean_folded_into_header:
  "write_val (Some field_id) BOOLEAN val w =
     Some (write_field_begin field_id (if truthy val then TRUE else FALSE) w)
   \<and> thriftWriteFromObject (VObj [(''foo'', VBool True)])
       (TStruct [(''foo'', TField 1 TBoolean False)]) = Some (Inr [0x11, 0x00])
   \<and> write_val None BOOLEAN val w = Some (Inl InvalidBooleanContext)
   \<and> (xs \<noteq> [] \<and> length xs < 2147483648
      \<longrightarrow> write_list field_id BOOLEAN (VArr xs) w = Some (Inl InvalidBooleanContext))"
proof -
  have a: "write_val (Some field_id) BOOLEAN val w =
     Some (write_field_begin field_id (if truthy val then TRUE else FALSE) w)"
    by (simp add: write_val_def)
  have b: "thriftWriteFromObject (VObj [(''foo'', VBool True)])
       (TStruct [(''foo'', TField 1 TBoolean False)]) = Some (Inr [0x11, 0x00])"
    by (simp add: writer_defs js_defs)
  have c: "write_val None BOOLEAN val w = Some (Inl InvalidBooleanContext)"
    by (simp add: write_val_def)
  have d: "write_list field_id BOOLEAN (VArr xs) w = Some (Inl InvalidBooleanContext)"
    if xs: "xs \<noteq> []" "length xs < 2147483648"
  proof -
    obtain x xs' where x: "xs = x # xs'" using xs by (cases xs) auto
    have "forEach (\<lambda>v. write_val None BOOLEAN v) (x # xs') w' = Some (Inl InvalidBooleanContext)"
      for w'
      by (simp add: write_val_def)
    then show ?thesis
      using write_list_eq [of xs BOOLEAN field_id w] xs by (simp add: x)
  qed
  from a b c d show ?thesis by blast
qed

theorem boolean_folded_into_header_witness:
  "[VBool True] \<noteq> [] \<and> length [VBool True] < 2147483648
   \<and> write_list 1 BOOLEAN (VArr [VBool True]) new_BufferWriter = Some (Inl InvalidBooleanContext)
   \<and> write_val None BOOLEAN (VBool False) new_BufferWriter = Some (Inl InvalidBooleanContext)"
proof -
  note r = boolean_folded_into_header [of 1 "VBool False" new_BufferWriter "[VBool True]"]
  from r have "write_list 1 BOOLEAN (VArr [VBool True]) new_BufferWriter =
      Some (Inl InvalidBooleanContext)"
    by simp
  moreover from r have "write_val None BOOLEAN (VBool False) new_BufferWriter =
      Some (Inl InvalidBooleanContext)"
    by blast
  ultimately show ?thesis by simp
qed

text \<open>
  C9 as stated: double is in the writer's supported set, and \<^verbatim>\<open>write_val\<close> writes its 8
  bytes after the field header. It is not: \<^verbatim>\<open>write_val\<close> has no case for DOUBLE and
  throws the \<open>UnsupportedWrite\<close> error of its default branch.
\<close>

theorem double_write_counterexample:
  "write_val (Some 1) DOUBLE (VDouble [0, 0, 0, 0, 0, 0, 240, 63]) new_BufferWriter =
     Some (Inl UnsupportedWrite)"
  by (simp add: writer_defs js_defs)


text \<open>
  C9 as amended. Double and float are outside the writer's supported set: for every
  field id (or none), value and writer state, \<^verbatim>\<open>write_val\<close> with type DOUBLE or FLOAT
  fails with UnsupportedWrite. (The schema has no double or float node either.)
\<close>

theorem double_not_supported_by_write_val:
  "write_val field_id DOUBLE val w = Some (Inl UnsupportedWrite)
   \<and> write_val field_id FLOAT val w = Some (Inl UnsupportedWrite)"
proof (cases field_id)
  case None
  then show ?thesis by (simp add: write_val_def)
next
  case (Some fid)
  obtain w1 w2 where "write_field_begin fid DOUBLE w = Inr w1"
    "write_field_begin fid FLOAT w = Inr w2"
    using write_field_begin_Inr [of DOUBLE fid w] write_field_begin_Inr [of FLOAT fid w]
    by auto
  with Some show ?thesis by (simp add: write_val_def)
qed


theorem double_not_supported_by_write_val_witness:
  "write_val None DOUBLE (VNum 1) new_BufferWriter = Some (Inl UnsupportedWrite)
   \<and> write_val (Some 2) FLOAT (VNum 1) new_BufferWriter = Some (Inl UnsupportedWrite)"
  using double_not_supported_by_write_val [of None "VNum 1" new_BufferWriter]
    double_not_supported_by_write_val [of "Some 2" "VNum 1" new_BufferWriter]
  by simp


section \<open>Claims about the reader\<close>







text \<open>
  C5. Every nested struct frame pushes \<open>prev_field_id\<close> on the stack and resets it to 0
  before descending, and pops it after the frame's STOP: after a nested struct (indeed
  any value) has been decoded by \<^verbatim>\<open>read_val_recursive\<close> or skipped by \<^verbatim>\<open>skip\<close>, and after
  \<^verbatim>\<open>write_struct\<close> has written a struct entered by a push, \<open>prev_field_id\<close> and the stack
  are what they were just before the push. \<^verbatim>\<open>write_struct_begin\<close> is the field header,
  which sets \<open>prev_field_id\<close> to the field's id, and then the push.
\<close>

theorem nested_struct_restores_prev_field_id:
  "(read_val_recursive fuel field r = Some (Inr (v, r'))
      \<longrightarrow> r_prev_field_id r' = r_prev_field_id r \<and> r_stack r' = r_stack r)
   \<and> (skip fuel type r = Some (Inr r')
      \<longrightarrow> r_prev_field_id r' = r_prev_field_id r \<and> r_stack r' = r_stack r)
   \<and> (write_struct obj struct (w_push_stack w) = Some (Inr w')
      \<longrightarrow> w_prev_field_id w' = w_prev_field_id w \<and> w_stack w' = w_stack w)
   \<and> r_prev_field_id (r_push_stack r) = 0
   \<and> r_stack (r_push_stack r) = r_prev_field_id r # r_stack r
   \<and> w_prev_field_id (w_push_stack w) = 0
   \<and> w_stack (w_push_stack w) = w_prev_field_id w # w_stack w
   \<and> (write_struct_begin field_id w = Inr w1
      \<longrightarrow> (\<exists>w0. write_field_begin field_id STRUCT w = Inr w0 \<and> w1 = w_push_stack w0
            \<and> w_prev_field_id w0 = field_id))"
proof -
  have a: "r_prev_field_id r' = r_prev_field_id r \<and> r_stack r' = r_stack r"
    if "read_val_recursive fuel field r = Some (Inr (v, r'))"
    using that read_frame_all [of fuel] by (auto simp: same_frame_def same_stack_def)
  have b: "r_prev_field_id r' = r_prev_field_id r \<and> r_stack r' = r_stack r"
    if "skip fuel type r = Some (Inr r')"
    using skip_frame [OF that] by (simp add: same_frame_def same_stack_def)
  have c: "w_prev_field_id w' = w_prev_field_id w \<and> w_stack w' = w_stack w"
    if "write_struct obj struct (w_push_stack w) = Some (Inr w')"
    using write_struct_stack [OF that] by (simp add: w_push_stack_def)
  have d: "\<exists>w0. write_field_begin field_id STRUCT w = Inr w0 \<and> w1 = w_push_stack w0
            \<and> w_prev_field_id w0 = field_id"
    if "write_struct_begin field_id w = Inr w1"
    using that
    by (auto simp: write_struct_begin_def dest: write_field_begin_prev split: sum.splits)
  show ?thesis
    using a b c d by (simp add: r_push_stack_def w_push_stack_def)
qed

theorem nested_struct_restores_prev_field_id_witness:
  "read_val_recursive 3 (TStruct [(''a'', TField 1 TBoolean False)])
     \<lparr>r_buffer = [0x11, 0], r_cursor = 0, r_prev_field_id = 7, r_stack = [3]\<rparr> =
     Some (Inr (VObj [(''a'', VBool True)],
       \<lparr>r_buffer = [0x11, 0], r_cursor = 2, r_prev_field_id = 7, r_stack = [3]\<rparr>))
   \<and> r_prev_field_id \<lparr>r_buffer = [0x11, 0], r_cursor = 2, r_prev_field_id = 7, r_stack = [3]\<rparr>
      = r_prev_field_id \<lparr>r_buffer = [0x11, 0], r_cursor = 0, r_prev_field_id = 7, r_stack = [3]\<rparr>"
proof -
  have e: "read_val_recursive 3 (TStruct [(''a'', TField 1 TBoolean False)])
     \<lparr>r_buffer = [0x11, 0], r_cursor = 0, r_prev_field_id = 7, r_stack = [3]\<rparr> =
     Some (Inr (VObj [(''a'', VBool True)],
       \<lparr>r_buffer = [0x11, 0], r_cursor = 2, r_prev_field_id = 7, r_stack = [3]\<rparr>))"
    by code_simp
  from nested_struct_restores_prev_field_id
    [of 3 "TStruct [(''a'', TField 1 TBoolean False)]"
      "\<lparr>r_buffer = [0x11, 0], r_cursor = 0, r_prev_field_id = 7, r_stack = [3]\<rparr>"
      "VObj [(''a'', VBool True)]"
      "\<lparr>r_buffer = [0x11, 0], r_cursor = 2, r_prev_field_id = 7, r_stack = [3]\<rparr>"] e
  show ?thesis by blast
qed
























end
